theory Spec2Isabelle
  imports Complex_Main "HOL-Library.Word" "HOL-Library.Log_Nat"
begin

section \<open>Shared data\<close>

type_synonym bytes = "8 word list"

text \<open>\<open>HexInput = string | Uint8Array\<close> and
  \<open>AccountAddressInput = HexInput | AccountAddress\<close>.\<close>

datatype HexInput = HexString string | HexBytes bytes

datatype AccountAddress = AccountAddress bytes

datatype AccountAddressInput = AddressHex HexInput | AddressObject AccountAddress

text \<open>JavaScript truthiness of a supplied address input, as tested by
  \<open>address ? ... : ...\<close>: the empty string is the only falsy value of the type; byte
  arrays and address objects are objects and always truthy.\<close>

fun truthy :: "AccountAddressInput \<Rightarrow> bool" where
  "truthy (AddressHex (HexString s)) = (s \<noteq> [])"
| "truthy (AddressHex (HexBytes b)) = True"
| "truthy (AddressObject a) = True"

datatype js_error = Error string

section \<open>src/account/SingleKeyAccount.ts\<close>

datatype PrivateKeyInput = Ed25519PrivateKey bytes | Secp256k1PrivateKey bytes

datatype PublicKey = Ed25519PublicKey bytes | Secp256k1PublicKey bytes

datatype AnyPublicKey = AnyPublicKey PublicKey

datatype Signature = Ed25519Signature bytes | Secp256k1Signature bytes

datatype AnySignature = AnySignature Signature

datatype SigningScheme = SigningScheme_Ed25519 | SigningScheme_MultiEd25519
  | SigningScheme_SingleKey | SigningScheme_MultiKey

text \<open>The enum \<open>SigningSchemeInput\<close> has the members \<open>Ed25519\<close> and
  \<open>Secp256k1Ecdsa\<close>. \<open>Unlisted r\<close> stands for any other run-time value an untyped caller
  passes, \<open>r\<close> being its rendering by the template literal \<open>${scheme}\<close>.\<close>

datatype SigningSchemeInput = Ed25519 | Secp256k1Ecdsa | Unlisted string

text \<open>The key classes, the address class and the signing-message builder are imported by
  SingleKeyAccount.ts from other modules; the account code is parametrised by them. Random key
  generation reads the entropy passed in; derivation and address parsing may throw.\<close>

record 'txn collaborators =
  pk_publicKey :: "PrivateKeyInput \<Rightarrow> PublicKey"
  pk_sign :: "PrivateKeyInput \<Rightarrow> HexInput \<Rightarrow> Signature"
  authKey_derivedAddress :: "AnyPublicKey \<Rightarrow> AccountAddress"
  AccountAddress_from :: "AccountAddressInput \<Rightarrow> js_error + AccountAddress"
  generateSigningMessageForTransaction :: "'txn \<Rightarrow> bytes"
  Ed25519PrivateKey_generate :: "bytes \<Rightarrow> PrivateKeyInput"
  Secp256k1PrivateKey_generate :: "bytes \<Rightarrow> PrivateKeyInput"
  Ed25519PrivateKey_fromDerivationPath :: "string \<Rightarrow> string \<Rightarrow> js_error + PrivateKeyInput"
  Secp256k1PrivateKey_fromDerivationPath :: "string \<Rightarrow> string \<Rightarrow> js_error + PrivateKeyInput"

record SingleKeyAccount =
  privateKey :: PrivateKeyInput
  publicKey :: AnyPublicKey
  accountAddress :: AccountAddress
  signingScheme :: SigningScheme

datatype AccountAuthenticatorSingleKey = AccountAuthenticatorSingleKey AnyPublicKey AnySignature

text \<open>The constructor. \<open>address\<close> is \<open>None\<close> when the argument is omitted.\<close>

definition SingleKeyAccount_new ::
  "'txn collaborators \<Rightarrow> PrivateKeyInput \<Rightarrow> AccountAddressInput option
     \<Rightarrow> js_error + SingleKeyAccount" where
  "SingleKeyAccount_new c pk address =
     (let pub = AnyPublicKey (pk_publicKey c pk);
          addr = (case address of
                    None \<Rightarrow> Inr (authKey_derivedAddress c pub)
                  | Some a \<Rightarrow> if truthy a then AccountAddress_from c a
                              else Inr (authKey_derivedAddress c pub))
      in case addr of
           Inl e \<Rightarrow> Inl e
         | Inr ad \<Rightarrow> Inr \<lparr>privateKey = pk, publicKey = pub, accountAddress = ad,
                         signingScheme = SigningScheme_SingleKey\<rparr>)"

text \<open>Calls that produce key material, in the order they are made.\<close>

datatype key_call =
    Call_Ed25519_generate
  | Call_Secp256k1_generate
  | Call_Ed25519_fromDerivationPath string string
  | Call_Secp256k1_fromDerivationPath string string

text \<open>\<open>static generate(args = {})\<close>; the scheme defaults to \<open>Ed25519\<close>. The result pairs
  the key-producing calls made with the value returned or the error thrown.\<close>

definition generate ::
  "'txn collaborators \<Rightarrow> SigningSchemeInput option \<Rightarrow> bytes
     \<Rightarrow> key_call list \<times> (js_error + SingleKeyAccount)" where
  "generate c scheme_arg entropy =
     (let scheme = (case scheme_arg of None \<Rightarrow> Ed25519 | Some s \<Rightarrow> s) in
      case scheme of
        Ed25519 \<Rightarrow>
          ([Call_Ed25519_generate],
           SingleKeyAccount_new c (Ed25519PrivateKey_generate c entropy) None)
      | Secp256k1Ecdsa \<Rightarrow>
          ([Call_Secp256k1_generate],
           SingleKeyAccount_new c (Secp256k1PrivateKey_generate c entropy) None)
      | Unlisted r \<Rightarrow> ([], Inl (Error (''Unsupported signature scheme '' @ r))))"

text \<open>\<open>static fromDerivationPath(args)\<close>.\<close>

definition fromDerivationPath ::
  "'txn collaborators \<Rightarrow> SigningSchemeInput option \<Rightarrow> string \<Rightarrow> string
     \<Rightarrow> key_call list \<times> (js_error + SingleKeyAccount)" where
  "fromDerivationPath c scheme_arg path mnemonic =
     (let scheme = (case scheme_arg of None \<Rightarrow> Ed25519 | Some s \<Rightarrow> s) in
      case scheme of
        Ed25519 \<Rightarrow>
          ([Call_Ed25519_fromDerivationPath path mnemonic],
           case Ed25519PrivateKey_fromDerivationPath c path mnemonic of
             Inl e \<Rightarrow> Inl e
           | Inr pk \<Rightarrow> SingleKeyAccount_new c pk None)
      | Secp256k1Ecdsa \<Rightarrow>
          ([Call_Secp256k1_fromDerivationPath path mnemonic],
           case Secp256k1PrivateKey_fromDerivationPath c path mnemonic of
             Inl e \<Rightarrow> Inl e
           | Inr pk \<Rightarrow> SingleKeyAccount_new c pk None)
      | Unlisted r \<Rightarrow> ([], Inl (Error (''Unsupported signature scheme '' @ r))))"

definition sign :: "'txn collaborators \<Rightarrow> SingleKeyAccount \<Rightarrow> HexInput \<Rightarrow> AnySignature" where
  "sign c acct message = AnySignature (pk_sign c (privateKey acct) message)"

definition signTransaction ::
  "'txn collaborators \<Rightarrow> SingleKeyAccount \<Rightarrow> 'txn \<Rightarrow> AnySignature" where
  "signTransaction c acct transaction =
     sign c acct (HexBytes (generateSigningMessageForTransaction c transaction))"

definition signWithAuthenticator ::
  "'txn collaborators \<Rightarrow> SingleKeyAccount \<Rightarrow> HexInput \<Rightarrow> AccountAuthenticatorSingleKey" where
  "signWithAuthenticator c acct message =
     AccountAuthenticatorSingleKey (publicKey acct) (sign c acct message)"

definition signTransactionWithAuthenticator ::
  "'txn collaborators \<Rightarrow> SingleKeyAccount \<Rightarrow> 'txn \<Rightarrow> AccountAuthenticatorSingleKey" where
  "signTransactionWithAuthenticator c acct transaction =
     AccountAuthenticatorSingleKey (publicKey acct) (signTransaction c acct transaction)"

text \<open>Whether a message contains a word, used to read what an error message reports.\<close>

fun mentions :: "string \<Rightarrow> string \<Rightarrow> bool" where
  "mentions w [] = (w = [])"
| "mentions w (c # cs) = (take (length w) (c # cs) = w \<or> mentions w cs)"

text \<open>The spec's reading of the unsupported-scheme error: it reports which schemes are
  supported, that is, it names them.\<close>

definition reports_supported_schemes :: "js_error \<Rightarrow> bool" where
  "reports_supported_schemes e =
     (case e of Error m \<Rightarrow> mentions ''Ed25519'' m \<and> mentions ''Secp256k1'' m)"

text \<open>A stand-in for the collaborators, for evaluating the account code on concrete inputs:
  keys are their own public keys, a signature is the message bytes, address strings are
  accepted when they start with \<open>0x\<close>.\<close>

fun demo_pub :: "PrivateKeyInput \<Rightarrow> PublicKey" where
  "demo_pub (Ed25519PrivateKey b) = Ed25519PublicKey b"
| "demo_pub (Secp256k1PrivateKey b) = Secp256k1PublicKey b"

fun demo_bytes :: "HexInput \<Rightarrow> bytes" where
  "demo_bytes (HexString s) = map (\<lambda>ch. of_nat (of_char ch)) s"
| "demo_bytes (HexBytes b) = b"

fun demo_sign :: "PrivateKeyInput \<Rightarrow> HexInput \<Rightarrow> Signature" where
  "demo_sign (Ed25519PrivateKey b) m = Ed25519Signature (b @ demo_bytes m)"
| "demo_sign (Secp256k1PrivateKey b) m = Secp256k1Signature (b @ demo_bytes m)"

fun demo_derive :: "AnyPublicKey \<Rightarrow> AccountAddress" where
  "demo_derive (AnyPublicKey (Ed25519PublicKey b)) = AccountAddress (0 # b)"
| "demo_derive (AnyPublicKey (Secp256k1PublicKey b)) = AccountAddress (1 # b)"

fun demo_from :: "AccountAddressInput \<Rightarrow> js_error + AccountAddress" where
  "demo_from (AddressObject a) = Inr a"
| "demo_from (AddressHex (HexBytes b)) = Inr (AccountAddress b)"
| "demo_from (AddressHex (HexString s)) =
     (if take 2 s = ''0x'' \<and> 2 < length s then Inr (AccountAddress (demo_bytes (HexString (drop 2 s))))
      else Inl (Error ''Hex string is invalid''))"

definition demo :: "bytes collaborators" where
  "demo = \<lparr>pk_publicKey = demo_pub, pk_sign = demo_sign, authKey_derivedAddress = demo_derive,
           AccountAddress_from = demo_from,
           generateSigningMessageForTransaction = (\<lambda>t. 7 # t),
           Ed25519PrivateKey_generate = Ed25519PrivateKey,
           Secp256k1PrivateKey_generate = Secp256k1PrivateKey,
           Ed25519PrivateKey_fromDerivationPath = (\<lambda>p m. Inr (Ed25519PrivateKey (demo_bytes (HexString (p @ m))))),
           Secp256k1PrivateKey_fromDerivationPath = (\<lambda>p m. Inr (Secp256k1PrivateKey (demo_bytes (HexString (p @ m)))))\<rparr>"

section \<open>JavaScript numbers\<close>

text \<open>The numbers of \<open>waitForTransaction\<close> are IEEE 754 binary64 values. A finite value is
  kept as the rational it denotes; every result of the arithmetic is rounded to the nearest
  double, ties to even, and to an infinity on overflow. The two zeros are not told apart: the
  code under study divides by the constant 1000 only. A value \<open>Finite x\<close> given from outside
  (a timeout) stands for a double when \<open>to_double x = Finite x\<close>; the properties below
  hold for every value of the type, and the sample inputs are doubles.\<close>

datatype double = Finite rat | PosInf | NegInf | NaN

text \<open>The exponent \<open>e\<close> with \<open>2^e \<le> x < 2^(e+1)\<close>, for positive \<open>x\<close>.\<close>

definition ilog2 :: "rat \<Rightarrow> int" where
  "ilog2 x = (if 1 \<le> x then bitlen \<lfloor>x\<rfloor> - 1 else - bitlen (\<lceil>1 / x\<rceil> - 1))"

definition round_half_even :: "rat \<Rightarrow> int" where
  "round_half_even v =
     (let f = \<lfloor>v\<rfloor>; r = v - of_int f
      in if r < 1 / 2 then f else if 1 / 2 < r then f + 1 else if even f then f else f + 1)"

definition huge :: rat where
  "huge = 2 ^ 1024"

text \<open>The exponent of the unit in the last place: 52 below the binade of \<open>x\<close>, and
  \<open>-1074\<close> for the subnormal numbers.\<close>

definition ulp_exp :: "rat \<Rightarrow> int" where
  "ulp_exp x = max (ilog2 \<bar>x\<bar>) (- 1022) - 52"

text \<open>Rounding of a real result to a double.\<close>

definition to_double :: "rat \<Rightarrow> double" where
  "to_double x =
     (if x = 0 then Finite 0
      else
        (let q = max (ilog2 \<bar>x\<bar>) (- 1022) - 52;
             y = of_int (round_half_even (x / 2 powi q)) * 2 powi q
         in if huge \<le> \<bar>y\<bar> then (if 0 < x then PosInf else NegInf) else Finite y))"

text \<open>Unary minus, \<open>+\<close>, \<open>-\<close>, \<open>*\<close>, \<open>/\<close> and \<open>>=\<close> on doubles.\<close>

fun dneg :: "double \<Rightarrow> double" where
  "dneg (Finite a) = Finite (- a)"
| "dneg PosInf = NegInf"
| "dneg NegInf = PosInf"
| "dneg NaN = NaN"

fun dadd :: "double \<Rightarrow> double \<Rightarrow> double" where
  "dadd (Finite a) (Finite b) = to_double (a + b)"
| "dadd NaN y = NaN"
| "dadd x NaN = NaN"
| "dadd PosInf NegInf = NaN"
| "dadd NegInf PosInf = NaN"
| "dadd PosInf y = PosInf"
| "dadd x PosInf = PosInf"
| "dadd NegInf y = NegInf"
| "dadd x NegInf = NegInf"

definition dsub :: "double \<Rightarrow> double \<Rightarrow> double" where
  "dsub x y = dadd x (dneg y)"

fun dmul :: "double \<Rightarrow> double \<Rightarrow> double" where
  "dmul (Finite a) (Finite b) = to_double (a * b)"
| "dmul NaN y = NaN"
| "dmul x NaN = NaN"
| "dmul (Finite a) y = (if a = 0 then NaN else if 0 < a then y else dneg y)"
| "dmul x (Finite b) = (if b = 0 then NaN else if 0 < b then x else dneg x)"
| "dmul PosInf y = y"
| "dmul NegInf y = dneg y"

fun ddiv :: "double \<Rightarrow> double \<Rightarrow> double" where
  "ddiv (Finite a) (Finite b) =
     (if b = 0 then (if a = 0 then NaN else if 0 < a then PosInf else NegInf)
      else to_double (a / b))"
| "ddiv NaN y = NaN"
| "ddiv x NaN = NaN"
| "ddiv (Finite a) y = Finite 0"
| "ddiv x (Finite b) = (if 0 \<le> b then x else dneg x)"
| "ddiv PosInf y = NaN"
| "ddiv NegInf y = NaN"

fun dge :: "double \<Rightarrow> double \<Rightarrow> bool" where
  "dge (Finite a) (Finite b) = (b \<le> a)"
| "dge NaN y = False"
| "dge x NaN = False"
| "dge PosInf y = True"
| "dge x NegInf = True"
| "dge (Finite a) PosInf = False"
| "dge NegInf y = False"

section \<open>src/internal/transaction.ts\<close>

datatype TransactionResponseType =
  Pending | User | Genesis | BlockMetadata | StateCheckpoint | Validator | BlockEpilogue

text \<open>The fields of a transaction response that the code reads. A pending response carries
  no \<open>success\<close> or \<open>vm_status\<close>; the code reads them on non-pending responses only.\<close>

record TransactionResponse =
  ttype :: TransactionResponseType
  hash :: string
  success :: bool
  vm_status :: string

record CedraApiError =
  status :: int
  statusText :: string

text \<open>The two messages of \<open>WaitForTransactionError\<close> and the one of
  \<open>FailedTransactionError\<close>, kept as the values interpolated into the template literal.\<close>

datatype message =
    Fetching_failed_and_timed_out string double
  | Timed_out_in_pending_state string double
  | Failed_with_an_error string string

text \<open>Values that can be thrown. \<open>OtherError st d\<close> is any thrown value that is not an
  instance of \<open>CedraApiError\<close>; \<open>st\<close> is its \<open>status\<close> property when it has a numeric
  one.\<close>

datatype exn =
    ApiError CedraApiError
  | OtherError "int option" string
  | WaitForTransactionError message "TransactionResponse option"
  | FailedTransactionError message TransactionResponse

text \<open>\<open>e?.status\<close>.\<close>

fun status_of :: "exn \<Rightarrow> int option" where
  "status_of (ApiError a) = Some (status a)"
| "status_of (OtherError st d) = st"
| "status_of (WaitForTransactionError m t) = None"
| "status_of (FailedTransactionError m t) = None"

text \<open>A reading of \<open>Date.now()\<close>: a time value, which the language keeps to a whole number
  of milliseconds within 8.64e15 of the epoch.\<close>

typedef time_value = "{t :: int. - 8640000000000000 \<le> t \<and> t \<le> 8640000000000000}"
  by (rule exI [of _ 0]) simp

setup_lifting type_definition_time_value

definition of_time :: "time_value \<Rightarrow> double" where
  "of_time t = to_double (of_int (Rep_time_value t))"

text \<open>The node seen from one call of the code: the answer to the k-th request
  \<open>getTransactionByHash\<close> (counted from 0), the answer to the long-poll request, the two
  readings of \<open>Date.now()\<close> around the long poll, and the imported constant
  \<open>DEFAULT_TXN_TIMEOUT_SEC\<close>.\<close>

record env =
  getTransactionByHash :: "nat \<Rightarrow> exn + TransactionResponse"
  longWaitForTransaction :: "exn + TransactionResponse"
  Date_now_start :: time_value
  Date_now_end :: time_value
  DEFAULT_TXN_TIMEOUT_SEC :: double

record WaitForTransactionOptions =
  timeoutSecs :: "double option"
  checkSuccess :: "bool option"

definition isTransactionPending :: "env \<Rightarrow> exn + bool" where
  "isTransactionPending ev =
     (case getTransactionByHash ev 0 of
        Inr transaction \<Rightarrow> Inr (ttype transaction = Pending)
      | Inl e \<Rightarrow> if status_of e = Some 404 then Inr True else Inl e)"

text \<open>Requests and waits issued by \<open>waitForTransaction\<close>, in order.\<close>

datatype event = Fetch_by_hash | Long_wait | Sleep double

text \<open>The local variables of \<open>waitForTransaction\<close>, and two observers that the code does
  not have: the number of polling iterations that issued a request, and the events so far.\<close>

record wstate =
  isPending :: bool
  timeElapsed :: double
  lastTxn :: "TransactionResponse option"
  lastError :: "CedraApiError option"
  backoffIntervalMs :: double
  polls :: nat
  trace :: "event list"

definition backoffMultiplier :: double where
  "backoffMultiplier = Finite (3 / 2)"

definition initial_state :: wstate where
  "initial_state = \<lparr>isPending = True, timeElapsed = Finite 0, lastTxn = None, lastError = None,
                     backoffIntervalMs = Finite 200, polls = 0, trace = []\<rparr>"

text \<open>\<open>handleAPIError(e)\<close>: the state after the call and the value it throws, if any.\<close>

definition handleAPIError :: "exn \<Rightarrow> wstate \<Rightarrow> wstate \<times> exn option" where
  "handleAPIError e s =
     (case e of
        ApiError a \<Rightarrow>
          (let s' = s\<lparr>lastError := Some a\<rparr>;
               isRequestError = (status a \<noteq> 404 \<and> status a \<ge> 400 \<and> status a < 500)
           in if isRequestError then (s', Some e) else (s', None))
      | _ \<Rightarrow> (s, Some e))"

text \<open>A \<open>try { lastTxn = await ...; isPending = ... } catch (e) { handleAPIError(e) }\<close>
  block, given the answer to the request.\<close>

definition observe :: "exn + TransactionResponse \<Rightarrow> wstate \<Rightarrow> wstate \<times> exn option" where
  "observe r s =
     (case r of
        Inr t \<Rightarrow> (s\<lparr>lastTxn := Some t, isPending := (ttype t = Pending)\<rparr>, None)
      | Inl e \<Rightarrow> handleAPIError e s)"

definition initial_fetch :: "env \<Rightarrow> wstate \<times> exn option" where
  "initial_fetch ev =
     observe (getTransactionByHash ev 0) (initial_state\<lparr>trace := [Fetch_by_hash]\<rparr>)"

text \<open>\<open>(Date.now() - startTime) / 1000\<close>.\<close>

definition long_wait_secs :: "env \<Rightarrow> double" where
  "long_wait_secs ev =
     ddiv (dsub (of_time (Date_now_end ev)) (of_time (Date_now_start ev))) (Finite 1000)"

definition long_wait :: "env \<Rightarrow> wstate \<Rightarrow> wstate \<times> exn option" where
  "long_wait ev s =
     (if isPending s then
        (case observe (longWaitForTransaction ev) (s\<lparr>trace := trace s @ [Long_wait]\<rparr>) of
           (s', Some x) \<Rightarrow> (s', Some x)
         | (s', None) \<Rightarrow> (s'\<lparr>timeElapsed := long_wait_secs ev\<rparr>, None))
      else (s, None))"

text \<open>The three statements that end an iteration of the polling loop.\<close>

definition back_off :: "wstate \<Rightarrow> wstate" where
  "back_off s =
     s\<lparr>trace := trace s @ [Sleep (backoffIntervalMs s)],
       timeElapsed := dadd (timeElapsed s) (ddiv (backoffIntervalMs s) (Finite 1000)),
       backoffIntervalMs := dmul (backoffIntervalMs s) backoffMultiplier\<rparr>"

text \<open>One iteration of \<open>while (isPending)\<close>, entered with \<open>isPending\<close> true: \<open>Inl\<close> leaves the
  loop (by \<open>break\<close> or by a throw), \<open>Inr\<close> goes round again.\<close>

definition poll_body :: "env \<Rightarrow> double \<Rightarrow> wstate \<Rightarrow> (wstate \<times> exn option) + wstate" where
  "poll_body ev timeout s =
     (if dge (timeElapsed s) timeout then Inl (s, None)
      else
        (case observe (getTransactionByHash ev (Suc (polls s)))
                (s\<lparr>polls := Suc (polls s), trace := trace s @ [Fetch_by_hash]\<rparr>) of
           (s', Some x) \<Rightarrow> Inl (s', Some x)
         | (s', None) \<Rightarrow> if \<not> isPending s' then Inl (s', None) else Inr (back_off s')))"

partial_function (option) poll :: "env \<Rightarrow> double \<Rightarrow> wstate \<Rightarrow> (wstate \<times> exn option) option" where
  "poll ev timeout s =
     (if \<not> isPending s then Some (s, None)
      else (case poll_body ev timeout s of
              Inl r \<Rightarrow> Some r
            | Inr s' \<Rightarrow> poll ev timeout s'))"

text \<open>Everything after the loop.\<close>

definition conclude :: "string \<Rightarrow> double \<Rightarrow> bool \<Rightarrow> wstate \<Rightarrow> exn + TransactionResponse" where
  "conclude transactionHash timeout check s =
     (case lastTxn s of
        None \<Rightarrow>
          (case lastError s of
             Some a \<Rightarrow> Inl (ApiError a)
           | None \<Rightarrow>
               Inl (WaitForTransactionError
                      (Fetching_failed_and_timed_out transactionHash timeout) (lastTxn s)))
      | Some t \<Rightarrow>
          if ttype t = Pending then
            Inl (WaitForTransactionError
                   (Timed_out_in_pending_state transactionHash timeout) (Some t))
          else if \<not> check then Inr t
          else if \<not> success t then
            Inl (FailedTransactionError (Failed_with_an_error transactionHash (vm_status t)) t)
          else Inr t)"

definition timeout_of :: "env \<Rightarrow> WaitForTransactionOptions option \<Rightarrow> double" where
  "timeout_of ev options =
     (case options of
        None \<Rightarrow> DEFAULT_TXN_TIMEOUT_SEC ev
      | Some opts \<Rightarrow> (case timeoutSecs opts of None \<Rightarrow> DEFAULT_TXN_TIMEOUT_SEC ev | Some t \<Rightarrow> t))"

definition checkSuccess_of :: "WaitForTransactionOptions option \<Rightarrow> bool" where
  "checkSuccess_of options =
     (case options of
        None \<Rightarrow> True
      | Some opts \<Rightarrow> (case checkSuccess opts of None \<Rightarrow> True | Some b \<Rightarrow> b))"

text \<open>The function up to the end of the loop: the state reached and the value thrown on the
  way, if any. \<open>None\<close> means that the loop runs forever.\<close>

definition fetching :: "env \<Rightarrow> WaitForTransactionOptions option \<Rightarrow> (wstate \<times> exn option) option" where
  "fetching ev options =
     (case initial_fetch ev of
        (s0, Some x) \<Rightarrow> Some (s0, Some x)
      | (s0, None) \<Rightarrow>
          (case long_wait ev s0 of
             (s1, Some x) \<Rightarrow> Some (s1, Some x)
           | (s1, None) \<Rightarrow> poll ev (timeout_of ev options) s1))"

definition waitForTransaction ::
  "env \<Rightarrow> string \<Rightarrow> WaitForTransactionOptions option \<Rightarrow> (exn + TransactionResponse) option" where
  "waitForTransaction ev transactionHash options =
     (case fetching ev options of
        None \<Rightarrow> None
      | Some (s, Some x) \<Rightarrow> Some (Inl x)
      | Some (s, None) \<Rightarrow>
          Some (conclude transactionHash (timeout_of ev options) (checkSuccess_of options) s))"

section \<open>Notions used to state and prove the properties\<close>

text \<open>The classification made by \<open>isRequestError\<close>.\<close>

definition fatal :: "CedraApiError \<Rightarrow> bool" where
  "fatal a \<longleftrightarrow> status a \<noteq> 404 \<and> 400 \<le> status a \<and> status a < 500"

text \<open>An answer after which the code goes on waiting: a pending transaction, or an API error
  that \<open>handleAPIError\<close> does not rethrow.\<close>

fun still_waiting :: "exn + TransactionResponse \<Rightarrow> bool" where
  "still_waiting (Inr t) = (ttype t = Pending)"
| "still_waiting (Inl (ApiError a)) = (\<not> fatal a)"
| "still_waiting (Inl (OtherError st d)) = False"
| "still_waiting (Inl (WaitForTransactionError m t)) = False"
| "still_waiting (Inl (FailedTransactionError m t)) = False"

text \<open>The backoff interval in iteration \<open>k\<close>: 200 at first, multiplied by 1.5 after each
  attempt, in the arithmetic of the code.\<close>

primrec interval_at :: "nat \<Rightarrow> double" where
  "interval_at 0 = Finite 200"
| "interval_at (Suc k) = dmul (interval_at k) (Finite (3 / 2))"

text \<open>The elapsed-time counter after \<open>k\<close> sleeps, when the long poll was measured to take
  \<open>d\<close> seconds, in the arithmetic of the code.\<close>

primrec counter_at :: "double \<Rightarrow> nat \<Rightarrow> double" where
  "counter_at d 0 = d"
| "counter_at d (Suc k) = dadd (counter_at d k) (ddiv (interval_at k) (Finite 1000))"

text \<open>The events of \<open>n\<close> complete polling iterations.\<close>

definition poll_events :: "nat \<Rightarrow> event list" where
  "poll_events n = concat (map (\<lambda>k. [Fetch_by_hash, Sleep (interval_at k)]) [0..<n])"

text \<open>The answer to the latest request once the long poll has been made and \<open>n\<close> polling
  requests after it.\<close>

definition last_answer :: "env \<Rightarrow> nat \<Rightarrow> exn + TransactionResponse" where
  "last_answer ev n = (if n = 0 then longWaitForTransaction ev else getTransactionByHash ev n)"

text \<open>What holds each time the loop condition is tested.\<close>

definition loop_inv :: "env \<Rightarrow> double \<Rightarrow> wstate \<Rightarrow> bool" where
  "loop_inv ev timeout s \<longleftrightarrow>
     backoffIntervalMs s = interval_at (polls s) \<and>
     timeElapsed s = counter_at (long_wait_secs ev) (polls s) \<and>
     trace s = [Fetch_by_hash, Long_wait] @ poll_events (polls s) \<and>
     (\<forall>k<polls s. \<not> dge (counter_at (long_wait_secs ev) k) timeout) \<and>
     (\<forall>k<polls s. still_waiting (getTransactionByHash ev (Suc k))) \<and>
     isPending s = (case lastTxn s of None \<Rightarrow> True | Some t \<Rightarrow> ttype t = Pending) \<and>
     (\<forall>t. last_answer ev (polls s) = Inr t \<longrightarrow> lastTxn s = Some t) \<and>
     (lastTxn s = None \<longrightarrow> (\<exists>a. lastError s = Some a \<and> last_answer ev (polls s) = Inl (ApiError a)))"

text \<open>The loop was left with state \<open>s\<close>, throwing \<open>x\<close> if it is not \<open>None\<close>.\<close>

definition after_loop :: "env \<Rightarrow> double \<Rightarrow> wstate \<Rightarrow> exn option \<Rightarrow> bool" where
  "after_loop ev timeout s x \<longleftrightarrow>
     (\<exists>sl. loop_inv ev timeout sl \<and>
        (if isPending sl then poll_body ev timeout sl = Inl (s, x) else (s, x) = (sl, None)))"

text \<open>The numbers the loop can hold: the counter is never below \<open>- 2^54\<close>, the interval never
  below 200, and neither is \<open>NaN\<close>.\<close>

definition sane :: "wstate \<Rightarrow> bool" where
  "sane s \<longleftrightarrow>
     (timeElapsed s = PosInf \<or> (\<exists>t. timeElapsed s = Finite t \<and> - (2 powi 54) \<le> t)) \<and>
     (backoffIntervalMs s = PosInf \<or>
      (\<exists>x. backoffIntervalMs s = Finite x \<and> 200 \<le> x \<and> x < huge))"

text \<open>A bound on the iterations left: the interval overflows within \<open>k - 2\<close> multiplications,
  the counter is infinite one iteration later, and the loop ends at the next test.\<close>

definition fuel :: "nat \<Rightarrow> wstate \<Rightarrow> bool" where
  "fuel k s \<longleftrightarrow>
     timeElapsed s = PosInf \<or> (0 < k \<and> backoffIntervalMs s = PosInf) \<or>
     (\<exists>x. backoffIntervalMs s = Finite x \<and> 1 < k \<and> huge \<le> x * (5 / 4) ^ (k - 2))"

subsection \<open>Sample nodes and responses\<close>

text \<open>The clock reading of \<open>t\<close> milliseconds after the epoch (the epoch itself when \<open>t\<close> is
  out of range).\<close>

lift_definition at_ms :: "int \<Rightarrow> time_value" is
  "\<lambda>t. if - 8640000000000000 \<le> t \<and> t \<le> 8640000000000000 then t else 0"
  by simp

definition not_found :: CedraApiError where
  "not_found = \<lparr>status = 404, statusText = ''Not Found''\<rparr>"

definition bad_request :: CedraApiError where
  "bad_request = \<lparr>status = 400, statusText = ''Bad Request''\<rparr>"

definition pending_txn :: TransactionResponse where
  "pending_txn = \<lparr>ttype = Pending, hash = ''0xabc'', success = False, vm_status = []\<rparr>"

definition failed_txn :: TransactionResponse where
  "failed_txn = \<lparr>ttype = User, hash = ''0xabc'', success = False, vm_status = ''Move abort''\<rparr>"

definition demo_env :: "(nat \<Rightarrow> exn + TransactionResponse) \<Rightarrow> (exn + TransactionResponse) \<Rightarrow> env" where
  "demo_env f l = \<lparr>getTransactionByHash = f, longWaitForTransaction = l,
       Date_now_start = at_ms 1000, Date_now_end = at_ms 1250,
       DEFAULT_TXN_TIMEOUT_SEC = Finite 20\<rparr>"

definition never_found :: env where
  "never_found = demo_env (\<lambda>k. Inl (ApiError not_found)) (Inl (ApiError not_found))"

definition always_pending :: env where
  "always_pending = demo_env (\<lambda>k. Inr pending_txn) (Inr pending_txn)"

definition executed_failed :: env where
  "executed_failed = demo_env (\<lambda>k. Inr failed_txn) (Inr failed_txn)"

definition rejected :: env where
  "rejected = demo_env (\<lambda>k. Inl (ApiError bad_request)) (Inl (ApiError bad_request))"

definition unreachable :: env where
  "unreachable = demo_env (\<lambda>k. Inl (OtherError None ''fetch failed'')) (Inr pending_txn)"

definition waiting :: "double \<Rightarrow> WaitForTransactionOptions option" where
  "waiting t = Some \<lparr>timeoutSecs = Some t, checkSuccess = None\<rparr>"

text \<open>A node that answers 404 and a clock that is set back by one second during the long
  poll.\<close>

definition clock_set_back :: env where
  "clock_set_back = (never_found\<lparr>Date_now_start := at_ms 2000, Date_now_end := at_ms 1000\<rparr>)"

text \<open>A long poll of 45 ms, then pending answers to three polling requests and a committed
  transaction in answer to the fourth.\<close>

definition committed_txn :: TransactionResponse where
  "committed_txn = \<lparr>ttype = User, hash = ''0xabc'', success = True, vm_status = ''Executed successfully''\<rparr>"

definition unavailable :: CedraApiError where
  "unavailable = \<lparr>status = 503, statusText = ''Service Unavailable''\<rparr>"

text \<open>A node that answers 404 to the first fetch, 503 to the long poll, 404 to the first
  polling request, and then knows the transaction; and one that rejects the second polling
  request instead.\<close>

definition flaky :: env where
  "flaky = demo_env (\<lambda>k. if k < 2 then Inl (ApiError not_found) else Inr committed_txn)
             (Inl (ApiError unavailable))"

definition flaky_then_rejected :: env where
  "flaky_then_rejected =
     demo_env (\<lambda>k. if k < 2 then Inl (ApiError not_found) else Inl (ApiError bad_request))
       (Inl (ApiError unavailable))"

text \<open>A transport that throws a value with status 404 that is not a \<open>CedraApiError\<close>.\<close>

definition foreign_404 :: env where
  "foreign_404 = demo_env (\<lambda>k. Inl (OtherError (Some 404) ''Not Found'')) (Inr pending_txn)"

text \<open>The number written \<open>0.995\<close>.\<close>

definition nearly_a_second :: double where
  "nearly_a_second = Finite (8962163258467287 / 9007199254740992)"

definition fourth_poll :: env where
  "fourth_poll = \<lparr>getTransactionByHash = (\<lambda>k. if k < 4 then Inr pending_txn else Inr committed_txn),
       longWaitForTransaction = Inr pending_txn,
       Date_now_start = at_ms 1000, Date_now_end = at_ms 1045,
       DEFAULT_TXN_TIMEOUT_SEC = Finite 20\<rparr>"

section \<open>The binary canonical serialization (spec sections 3 and 4.1)\<close>

text \<open>The classes \<open>Serializer\<close> and \<open>Deserializer\<close> are imported by the sources of the
  repository at hand but their module is not among them; this section follows the spec.\<close>

text \<open>Modelled from the spec: the types a value can be declared with (the primitive encodings
  of section 3, the \<open>Serializer\<close> and \<open>Deserializer\<close> classes being absent). A user-defined
  structure is the list of its field types in the declared order.\<close>

datatype bcs_type =
    U8 | U16 | U32 | U64 | U128 | U256
  | Uleb128
  | Bytes
  | FixedBytes nat
  | Sequence bcs_type
  | Optional bcs_type
  | Struct "bcs_type list"

text \<open>Modelled from the spec: the values that are serialized (the \<open>Serializer\<close> class being
  absent): fixed-width unsigned integers, a length or enum tag, a byte vector, a fixed-size
  byte array, a sequence, an absent or present optional, a structure given by its fields.\<close>

datatype bcs_value =
    VU8 "8 word" | VU16 "16 word" | VU32 "32 word" | VU64 "64 word"
  | VU128 "128 word" | VU256 "256 word"
  | VUleb128 nat
  | VBytes bytes
  | VFixedBytes bytes
  | VSequence "bcs_value list"
  | VAbsent
  | VPresent bcs_value
  | VStruct "bcs_value list"

text \<open>Modelled from the spec: the two points the spec leaves to the implementation of the
  absent \<open>Deserializer\<close>: the largest length a ULEB128 may represent, and whether a
  non-canonical ULEB128 is rejected (required by section 3, absent according to section 9).\<close>

record bcs_limits =
  max_length :: nat
  reject_non_canonical :: bool

text \<open>Modelled from the spec: fixed-width integers of the absent \<open>Serializer\<close> are
  little-endian with a fixed byte count.\<close>

fun le_bytes :: "nat \<Rightarrow> nat \<Rightarrow> bytes" where
  "le_bytes 0 n = []"
| "le_bytes (Suc k) n = of_nat (n mod 256) # le_bytes k (n div 256)"

fun le_nat :: "bytes \<Rightarrow> nat" where
  "le_nat [] = 0"
| "le_nat (b # bs) = unat b + 256 * le_nat bs"

text \<open>Modelled from the spec: unsigned LEB128 of the absent \<open>Serializer\<close>, 7 bits per byte,
  low group first, the high bit set on every byte but the last.\<close>

function uleb128 :: "nat \<Rightarrow> bytes" where
  "uleb128 n = (if n < 128 then [of_nat n] else of_nat (128 + n mod 128) # uleb128 (n div 128))"
  by pat_completeness auto
termination
  by (relation "measure id") auto

declare uleb128.simps [simp del]

text \<open>Modelled from the spec: \<open>serialize\<close> of the absent \<open>Serializer\<close>. A byte vector is a
  ULEB128 length and the raw bytes; a sequence is a ULEB128 count and the elements in order;
  an optional is a presence byte 0 or 1 and the value when present; a fixed-size byte array
  is its raw bytes; a structure is its fields in the declared order.\<close>

fun serialize :: "bcs_value \<Rightarrow> bytes" where
  "serialize (VU8 w) = le_bytes 1 (unat w)"
| "serialize (VU16 w) = le_bytes 2 (unat w)"
| "serialize (VU32 w) = le_bytes 4 (unat w)"
| "serialize (VU64 w) = le_bytes 8 (unat w)"
| "serialize (VU128 w) = le_bytes 16 (unat w)"
| "serialize (VU256 w) = le_bytes 32 (unat w)"
| "serialize (VUleb128 n) = uleb128 n"
| "serialize (VBytes b) = uleb128 (length b) @ b"
| "serialize (VFixedBytes b) = b"
| "serialize (VSequence vs) = uleb128 (length vs) @ concat (map serialize vs)"
| "serialize VAbsent = [0]"
| "serialize (VPresent v) = 1 # serialize v"
| "serialize (VStruct vs) = concat (map serialize vs)"

text \<open>The read side: a cursor over the bytes that are left; \<open>None\<close> is a decode failure.\<close>

type_synonym 'a reader = "bytes \<Rightarrow> ('a \<times> bytes) option"

text \<open>Modelled from the spec: read-exact-N-bytes of the absent \<open>Deserializer\<close>, which fails
  if there are not enough bytes.\<close>

definition read_exact :: "nat \<Rightarrow> bytes reader" where
  "read_exact n bs = (if length bs < n then None else Some (take n bs, drop n bs))"

text \<open>Modelled from the spec: read-ULEB128 of the absent \<open>Deserializer\<close>. It fails when the
  bytes end inside the number, when the value exceeds the largest representable length and,
  if so configured, when the last byte of a longer encoding is zero.\<close>

fun uleb128_digits :: "bool \<Rightarrow> bool \<Rightarrow> nat reader" where
  "uleb128_digits strict first [] = None"
| "uleb128_digits strict first (b # bs) =
     (if b < 128 then
        (if strict \<and> \<not> first \<and> b = 0 then None else Some (unat b, bs))
      else
        (case uleb128_digits strict False bs of
           None \<Rightarrow> None
         | Some (v, rest) \<Rightarrow> Some (unat b - 128 + 128 * v, rest)))"

definition read_uleb128 :: "bcs_limits \<Rightarrow> nat reader" where
  "read_uleb128 cfg bs =
     (case uleb128_digits (reject_non_canonical cfg) True bs of
        None \<Rightarrow> None
      | Some (v, rest) \<Rightarrow> if v \<le> max_length cfg then Some (v, rest) else None)"

definition read_uint :: "nat \<Rightarrow> nat reader" where
  "read_uint k bs =
     (case read_exact k bs of None \<Rightarrow> None | Some (raw, rest) \<Rightarrow> Some (le_nat raw, rest))"

fun read_all :: "'a reader list \<Rightarrow> 'a list reader" where
  "read_all [] bs = Some ([], bs)"
| "read_all (r # rs) bs =
     (case r bs of
        None \<Rightarrow> None
      | Some (v, rest) \<Rightarrow>
          (case read_all rs rest of None \<Rightarrow> None | Some (vs, rest') \<Rightarrow> Some (v # vs, rest')))"

definition map_reader :: "('a \<Rightarrow> 'b) \<Rightarrow> 'a reader \<Rightarrow> 'b reader" where
  "map_reader f r bs = (case r bs of None \<Rightarrow> None | Some (v, rest) \<Rightarrow> Some (f v, rest))"

text \<open>Modelled from the spec: \<open>deserialize\<close> of the absent \<open>Deserializer\<close>, for a nested
  decode: it reads one value of the given type and leaves the bytes after it. An optional
  whose presence byte is zero reads no value; a presence byte other than 0 and 1 fails.\<close>

fun deserialize :: "bcs_limits \<Rightarrow> bcs_type \<Rightarrow> bcs_value reader" where
  "deserialize cfg U8 = map_reader (\<lambda>n. VU8 (of_nat n)) (read_uint 1)"
| "deserialize cfg U16 = map_reader (\<lambda>n. VU16 (of_nat n)) (read_uint 2)"
| "deserialize cfg U32 = map_reader (\<lambda>n. VU32 (of_nat n)) (read_uint 4)"
| "deserialize cfg U64 = map_reader (\<lambda>n. VU64 (of_nat n)) (read_uint 8)"
| "deserialize cfg U128 = map_reader (\<lambda>n. VU128 (of_nat n)) (read_uint 16)"
| "deserialize cfg U256 = map_reader (\<lambda>n. VU256 (of_nat n)) (read_uint 32)"
| "deserialize cfg Uleb128 = map_reader VUleb128 (read_uleb128 cfg)"
| "deserialize cfg Bytes =
     (\<lambda>bs. case read_uleb128 cfg bs of
              None \<Rightarrow> None
            | Some (n, rest) \<Rightarrow> map_reader VBytes (read_exact n) rest)"
| "deserialize cfg (FixedBytes k) = map_reader VFixedBytes (read_exact k)"
| "deserialize cfg (Sequence t) =
     (\<lambda>bs. case read_uleb128 cfg bs of
              None \<Rightarrow> None
            | Some (n, rest) \<Rightarrow> map_reader VSequence (read_all (replicate n (deserialize cfg t))) rest)"
| "deserialize cfg (Optional t) =
     (\<lambda>bs. case bs of
              [] \<Rightarrow> None
            | b # rest \<Rightarrow>
                if b = 0 then Some (VAbsent, rest)
                else if b = 1 then map_reader VPresent (deserialize cfg t) rest
                else None)"
| "deserialize cfg (Struct ts) = map_reader VStruct (read_all (map (deserialize cfg) ts))"

text \<open>Modelled from the spec: a top-level decode entry point of the absent \<open>Deserializer\<close>,
  for which trailing bytes are an error.\<close>

definition decode :: "bcs_limits \<Rightarrow> bcs_type \<Rightarrow> bytes \<Rightarrow> bcs_value option" where
  "decode cfg t bs =
     (case deserialize cfg t bs of
        None \<Rightarrow> None
      | Some (v, rest) \<Rightarrow> if rest = [] then Some v else None)"

text \<open>Modelled from the spec: the supported values of each type (the valid domain of each
  encoding of the absent \<open>Serializer\<close>): lengths and tags within the largest representable
  length, a fixed-size array of the declared size, sequence elements of the element type,
  structure fields of the declared types in the declared order.\<close>

fun has_type :: "bcs_limits \<Rightarrow> bcs_type \<Rightarrow> bcs_value \<Rightarrow> bool"
  and all_of_type :: "bcs_limits \<Rightarrow> bcs_type \<Rightarrow> bcs_value list \<Rightarrow> bool"
  and have_types :: "bcs_limits \<Rightarrow> bcs_type list \<Rightarrow> bcs_value list \<Rightarrow> bool" where
  "has_type cfg t (VU8 w) = (t = U8)"
| "has_type cfg t (VU16 w) = (t = U16)"
| "has_type cfg t (VU32 w) = (t = U32)"
| "has_type cfg t (VU64 w) = (t = U64)"
| "has_type cfg t (VU128 w) = (t = U128)"
| "has_type cfg t (VU256 w) = (t = U256)"
| "has_type cfg t (VUleb128 n) = (t = Uleb128 \<and> n \<le> max_length cfg)"
| "has_type cfg t (VBytes b) = (t = Bytes \<and> length b \<le> max_length cfg)"
| "has_type cfg t (VFixedBytes b) = (t = FixedBytes (length b))"
| "has_type cfg t (VSequence vs) =
     (case t of Sequence t' \<Rightarrow> length vs \<le> max_length cfg \<and> all_of_type cfg t' vs | _ \<Rightarrow> False)"
| "has_type cfg t VAbsent = (case t of Optional t' \<Rightarrow> True | _ \<Rightarrow> False)"
| "has_type cfg t (VPresent v) = (case t of Optional t' \<Rightarrow> has_type cfg t' v | _ \<Rightarrow> False)"
| "has_type cfg t (VStruct vs) = (case t of Struct ts \<Rightarrow> have_types cfg ts vs | _ \<Rightarrow> False)"
| "all_of_type cfg t [] = True"
| "all_of_type cfg t (v # vs) = (has_type cfg t v \<and> all_of_type cfg t vs)"
| "have_types cfg [] [] = True"
| "have_types cfg (t # ts) (v # vs) = (has_type cfg t v \<and> have_types cfg ts vs)"
| "have_types cfg [] (v # vs) = False"
| "have_types cfg (t # ts) [] = False"

subsection \<open>Boundary values\<close>

definition boundary_type :: bcs_type where
  "boundary_type =
     Struct [U8, U8, U16, U32, U64, U128, U256, Uleb128, Bytes, FixedBytes 2, Sequence U16,
             Optional U32, Optional (Struct [U8, Bytes])]"

text \<open>\<open>- 1\<close> is the largest value of its width.\<close>

definition boundary_value :: bcs_value where
  "boundary_value =
     VStruct [VU8 0, VU8 255, VU16 65535, VU32 4294967295, VU64 18446744073709551615,
              VU128 (- 1), VU256 (- 1), VUleb128 0, VBytes [], VFixedBytes [1, 2], VSequence [],
              VAbsent, VPresent (VStruct [VU8 7, VBytes [8, 9]])]"

definition bcs_u32_limits :: bcs_limits where
  "bcs_u32_limits = \<lparr>max_length = 4294967295, reject_non_canonical = True\<rparr>"

section \<open>Auxiliary facts\<close>

subsection \<open>Rounding\<close>

lemma powi_nonneg_eq: "0 \<le> n \<Longrightarrow> (2::rat) powi n = 2 ^ nat n"
  by (simp add: power_int_def)

lemma powi_le_iff: "(2::rat) powi m \<le> 2 powi n \<longleftrightarrow> m \<le> n"
proof
  assume "(2::rat) powi m \<le> 2 powi n"
  then show "m \<le> n"
    using power_int_strict_increasing [of n m "2::rat"] by (cases "m \<le> n") simp_all
next
  assume "m \<le> n"
  then show "(2::rat) powi m \<le> 2 powi n" by (simp add: power_int_increasing)
qed

lemma bitlen_bounds_rat:
  assumes "0 < c"
  shows "(2::rat) ^ nat (bitlen c - 1) \<le> of_int c" "of_int c + 1 \<le> (2::rat) ^ nat (bitlen c)"
proof -
  have "(of_int (2 ^ nat (bitlen c - 1)) :: rat) \<le> of_int c"
    using bitlen_bounds [OF assms] by (simp only: of_int_le_iff)
  then show "(2::rat) ^ nat (bitlen c - 1) \<le> of_int c"
    by (simp only: of_int_power of_int_numeral)
  have "c + 1 \<le> 2 ^ nat (bitlen c)" using bitlen_bounds [OF assms] by simp
  then have "(of_int (c + 1) :: rat) \<le> of_int (2 ^ nat (bitlen c))"
    by (simp only: of_int_le_iff)
  then show "of_int c + 1 \<le> (2::rat) ^ nat (bitlen c)"
    by (simp only: of_int_power of_int_numeral of_int_add of_int_1)
qed

lemma bitlen_pos: "0 < c \<Longrightarrow> 1 \<le> bitlen c"
  by (simp add: bitlen_alt_def)

lemma ilog2_le:
  assumes "0 < x"
  shows "2 powi (ilog2 x) \<le> x"
proof (cases "1 \<le> x")
  case True
  then have f: "0 < \<lfloor>x\<rfloor>" by simp
  have "(2::rat) powi (bitlen \<lfloor>x\<rfloor> - 1) = 2 ^ nat (bitlen \<lfloor>x\<rfloor> - 1)"
    using bitlen_pos [OF f] by (simp add: powi_nonneg_eq)
  also have "\<dots> \<le> of_int \<lfloor>x\<rfloor>" by (rule bitlen_bounds_rat(1) [OF f])
  also have "\<dots> \<le> x" by simp
  finally show ?thesis using True by (simp add: ilog2_def)
next
  case False
  define y where "y = 1 / x"
  define c where "c = \<lceil>y\<rceil> - 1"
  have y: "1 < y" using False assms by (simp add: y_def)
  then have "1 < \<lceil>y\<rceil>" by (simp add: less_ceiling_iff)
  then have c: "0 < c" by (simp add: c_def)
  have "of_int c + 1 = (of_int \<lceil>y\<rceil> :: rat)" by (simp add: c_def)
  then have "y \<le> of_int c + 1" using le_of_int_ceiling [of y] by simp
  also have "\<dots> \<le> 2 ^ nat (bitlen c)" by (rule bitlen_bounds_rat(2) [OF c])
  finally have "1 / 2 ^ nat (bitlen c) \<le> 1 / y"
    using y by (simp add: frac_le)
  moreover have "(2::rat) powi (- bitlen c) = 1 / 2 ^ nat (bitlen c)"
    using bitlen_nonneg [of c] by (simp add: power_int_minus powi_nonneg_eq divide_inverse)
  moreover have "1 / y = x" using assms by (simp add: y_def)
  ultimately have "(2::rat) powi (- bitlen c) \<le> x" by simp
  then show ?thesis using False by (simp add: ilog2_def c_def y_def)
qed

lemma ilog2_gt:
  assumes "0 < x"
  shows "x < 2 powi (ilog2 x + 1)"
proof (cases "1 \<le> x")
  case True
  then have f: "0 < \<lfloor>x\<rfloor>" by simp
  have "x < of_int \<lfloor>x\<rfloor> + 1" by linarith
  also have "\<dots> \<le> 2 ^ nat (bitlen \<lfloor>x\<rfloor>)" by (rule bitlen_bounds_rat(2) [OF f])
  also have "\<dots> = 2 powi (bitlen \<lfloor>x\<rfloor>)" using bitlen_pos [OF f] by (simp add: powi_nonneg_eq)
  finally show ?thesis using True by (simp add: ilog2_def)
next
  case False
  define y where "y = 1 / x"
  define c where "c = \<lceil>y\<rceil> - 1"
  have y: "1 < y" using False assms by (simp add: y_def)
  then have "1 < \<lceil>y\<rceil>" by (simp add: less_ceiling_iff)
  then have c: "0 < c" by (simp add: c_def)
  have "(2::rat) ^ nat (bitlen c - 1) \<le> of_int c" by (rule bitlen_bounds_rat(1) [OF c])
  also have "of_int c < y" unfolding c_def by linarith
  finally have "1 / y < 1 / 2 ^ nat (bitlen c - 1)"
    by (simp add: frac_less2)
  moreover have "(2::rat) powi (- bitlen c + 1) = 1 / 2 ^ nat (bitlen c - 1)"
  proof -
    have "(2::rat) powi (- bitlen c + 1) = 2 powi (- (bitlen c - 1))" by simp
    also have "\<dots> = inverse (2 powi (bitlen c - 1))" by (rule power_int_minus)
    also have "\<dots> = 1 / 2 ^ nat (bitlen c - 1)"
      using bitlen_pos [OF c] by (simp add: powi_nonneg_eq divide_inverse)
    finally show ?thesis .
  qed
  moreover have "1 / y = x" using assms by (simp add: y_def)
  ultimately have "x < (2::rat) powi (- bitlen c + 1)" by simp
  then show ?thesis using False by (simp add: ilog2_def c_def y_def)
qed

lemma round_half_even_cases: "round_half_even v = \<lfloor>v\<rfloor> \<or> round_half_even v = \<lfloor>v\<rfloor> + 1"
  by (simp add: round_half_even_def Let_def)

lemma round_half_even_ge: "of_int n \<le> v \<Longrightarrow> n \<le> round_half_even v"
  using round_half_even_cases [of v] le_floor_iff [of n v] by linarith

lemma round_half_even_le:
  assumes "v \<le> of_int n"
  shows "round_half_even v \<le> n"
proof (cases "v = of_int n")
  case True
  then show ?thesis by (simp add: round_half_even_def)
next
  case False
  then have "v < of_int n" using assms by simp
  then have "\<lfloor>v\<rfloor> < n" by (simp add: floor_less_iff)
  then show ?thesis using round_half_even_cases [of v] by linarith
qed

lemma round_half_even_near: "v - 1 / 2 \<le> of_int (round_half_even v)"
proof (cases "v - of_int \<lfloor>v\<rfloor> < 1 / 2")
  case True
  then have "round_half_even v = \<lfloor>v\<rfloor>" by (simp add: round_half_even_def)
  then show ?thesis using True by simp
next
  case False
  then have "round_half_even v = \<lfloor>v\<rfloor> \<and> v - of_int \<lfloor>v\<rfloor> = 1 / 2 \<or> round_half_even v = \<lfloor>v\<rfloor> + 1"
    by (auto simp: round_half_even_def Let_def)
  moreover have "v - of_int \<lfloor>v\<rfloor> < 1" by linarith
  ultimately show ?thesis by auto
qed

lemma to_double_unfold:
  "x \<noteq> 0 \<Longrightarrow> to_double x =
     (if huge \<le> \<bar>of_int (round_half_even (x / 2 powi ulp_exp x)) * 2 powi ulp_exp x\<bar>
      then (if 0 < x then PosInf else NegInf)
      else Finite (of_int (round_half_even (x / 2 powi ulp_exp x)) * 2 powi ulp_exp x))"
  by (simp add: to_double_def ulp_exp_def Let_def)

lemma to_double_not_NaN: "to_double x \<noteq> NaN"
  by (simp add: to_double_def Let_def)

lemma to_double_Finite_less: "to_double x = Finite y \<Longrightarrow> \<bar>y\<bar> < huge"
  by (auto simp: to_double_def Let_def huge_def split: if_splits)

lemma powi_split: "q \<le> k \<Longrightarrow> of_int (2 ^ nat (k - q)) * (2::rat) powi q = 2 powi k"
proof -
  assume "q \<le> k"
  then have "(of_int (2 ^ nat (k - q)) :: rat) = 2 powi (k - q)"
    by (simp add: powi_nonneg_eq)
  then have "of_int (2 ^ nat (k - q)) * (2::rat) powi q = 2 powi (k - q) * 2 powi q" by simp
  also have "\<dots> = 2 powi (k - q + q)" by (rule power_int_add [symmetric]) simp
  finally show ?thesis by simp
qed

lemma to_double_bounded:
  assumes "\<bar>x\<bar> \<le> 2 powi k" and "- 1074 \<le> k" and "k \<le> 1023"
  shows "\<exists>y. to_double x = Finite y \<and> \<bar>y\<bar> \<le> 2 powi k"
proof (cases "x = 0")
  case True
  then show ?thesis by (simp add: to_double_def)
next
  case False
  define q where "q = ulp_exp x"
  define N :: int where "N = 2 ^ nat (k - q)"
  define m where "m = round_half_even (x / 2 powi q)"
  have pos: "0 < \<bar>x\<bar>" using False by simp
  have "2 powi (ilog2 \<bar>x\<bar>) \<le> (2::rat) powi k"
    using ilog2_le [OF pos] assms(1) by simp
  then have "ilog2 \<bar>x\<bar> \<le> k" by (simp only: powi_le_iff)
  then have qk: "q \<le> k" using assms(2) by (simp add: q_def ulp_exp_def)
  have N: "of_int N * (2::rat) powi q = 2 powi k"
    unfolding N_def by (rule powi_split [OF qk])
  have p: "(0::rat) < 2 powi q" by simp
  have "\<bar>x\<bar> \<le> of_int N * 2 powi q" using assms(1) N by simp
  then have "\<bar>x\<bar> / 2 powi q \<le> of_int N" using p by (simp add: field_simps)
  then have a: "\<bar>x\<bar> / 2 powi q \<le> of_int N" .
  have "x / 2 powi q \<le> \<bar>x\<bar> / 2 powi q" by (rule divide_right_mono) simp_all
  then have hi: "x / 2 powi q \<le> of_int N" using a by linarith
  have "(- \<bar>x\<bar>) / 2 powi q \<le> x / 2 powi q" by (rule divide_right_mono) simp_all
  then have lo: "of_int (- N) \<le> x / 2 powi q" using a by simp
  have "round_half_even (x / 2 powi q) \<le> N" using hi by (rule round_half_even_le)
  moreover have "- N \<le> round_half_even (x / 2 powi q)" using lo by (rule round_half_even_ge)
  ultimately have "\<bar>m\<bar> \<le> N" by (simp add: m_def)
  then have "\<bar>of_int m :: rat\<bar> \<le> of_int N" by (metis of_int_abs of_int_le_iff)
  then have "\<bar>of_int m :: rat\<bar> * 2 powi q \<le> of_int N * 2 powi q"
    using p by (simp add: mult_right_mono)
  then have y: "\<bar>of_int m * (2::rat) powi q\<bar> \<le> 2 powi k"
    using N p by (simp add: abs_mult)
  have "(2::rat) powi k \<le> 2 powi 1023" using assms(3) by (simp only: powi_le_iff)
  also have "\<dots> < huge" by (simp add: huge_def)
  finally have "\<not> huge \<le> \<bar>of_int m * (2::rat) powi q\<bar>" using y by simp
  then have "to_double x = Finite (of_int m * 2 powi q)"
    using False by (simp add: to_double_unfold q_def m_def)
  then show ?thesis using y by blast
qed

lemma to_double_nonneg:
  assumes "0 \<le> x"
  shows "to_double x = PosInf \<or> (\<exists>y. to_double x = Finite y \<and> 0 \<le> y)"
proof (cases "x = 0")
  case True
  then show ?thesis by (simp add: to_double_def)
next
  case False
  define q where "q = ulp_exp x"
  have p: "(0::rat) < 2 powi q" by simp
  have "of_int 0 \<le> x / 2 powi q" using assms p by simp
  then have "0 \<le> round_half_even (x / 2 powi q)" by (rule round_half_even_ge)
  then have "(0::rat) \<le> of_int (round_half_even (x / 2 powi q)) * 2 powi q" using p by simp
  then show ?thesis using False assms by (simp add: to_double_unfold q_def)
qed

lemma to_double_above:
  assumes "- (2 powi k) \<le> x" and "- 1074 \<le> k" and "k \<le> 1023"
  shows "to_double x = PosInf \<or> (\<exists>y. to_double x = Finite y \<and> - (2 powi k) \<le> y)"
proof (cases "0 \<le> x")
  case True
  have n: "- ((2::rat) powi k) \<le> 0" by simp
  from to_double_nonneg [OF True] show ?thesis
  proof
    assume "to_double x = PosInf"
    then show ?thesis by simp
  next
    assume "\<exists>y. to_double x = Finite y \<and> 0 \<le> y"
    then obtain y where y: "to_double x = Finite y" "0 \<le> y" by blast
    then have "- (2 powi k) \<le> y" using n by linarith
    then show ?thesis using y by blast
  qed
next
  case False
  then have "\<bar>x\<bar> \<le> 2 powi k" using assms(1) by simp
  from to_double_bounded [OF this assms(2,3)] obtain y
    where y: "to_double x = Finite y" "\<bar>y\<bar> \<le> 2 powi k" by blast
  then have "- (2 powi k) \<le> y" by linarith
  then show ?thesis using y by blast
qed

lemma to_double_near:
  assumes w: "1 \<le> w"
  shows "to_double w = PosInf \<or> (\<exists>y. to_double w = Finite y \<and> w * (5 / 6) \<le> y)"
proof -
  define q where "q = ulp_exp w"
  define m where "m = round_half_even (w / 2 powi q)"
  define y where "y = of_int m * (2::rat) powi q"
  have w0: "0 < w" "w \<noteq> 0" "\<bar>w\<bar> = w" using w by simp_all
  have small: "2 powi q \<le> w / 2 ^ 52"
  proof (cases "- 1022 \<le> ilog2 w")
    case True
    then have "q = ilog2 w - 52" by (simp add: q_def ulp_exp_def w0)
    then have "(2::rat) powi q = 2 powi (ilog2 w) / 2 ^ 52"
      by (simp add: power_int_diff)
    also have "\<dots> \<le> w / 2 ^ 52" using ilog2_le [OF w0(1)] by (simp add: divide_right_mono)
    finally show ?thesis .
  next
    case False
    then have "q = - 1074" by (simp add: q_def ulp_exp_def w0)
    then have "(2::rat) powi q \<le> 2 powi (- 52)" by (simp only: powi_le_iff)
    also have "\<dots> = inverse (2 powi 52)" by (rule power_int_minus)
    also have "\<dots> = inverse (2 ^ 52)" by (simp only: power_int_numeral)
    also have "\<dots> = 1 / 2 ^ 52" by (rule inverse_eq_divide)
    also have "\<dots> \<le> w / 2 ^ 52" using w by (simp add: divide_right_mono)
    finally show ?thesis .
  qed
  define c where "c = (2::rat) powi q"
  have c: "0 < c" "c \<le> w / 2 ^ 52" using small by (simp_all add: c_def)
  have "w / c - 1 / 2 \<le> of_int m" unfolding m_def c_def by (rule round_half_even_near)
  then have "(w / c - 1 / 2) * c \<le> of_int m * c"
    by (rule mult_right_mono [OF _ less_imp_le [OF c(1)]])
  moreover have "(w / c - 1 / 2) * c = w - c / 2" using c(1) by (simp add: field_simps)
  moreover have "c / 2 \<le> w / 6" using c(2) w0(1) by simp
  ultimately have "w * (5 / 6) \<le> of_int m * c" by linarith
  then have near: "w * (5 / 6) \<le> y" unfolding y_def c_def .
  have "to_double w = (if huge \<le> \<bar>y\<bar> then (if 0 < w then PosInf else NegInf) else Finite y)"
    unfolding y_def m_def q_def by (rule to_double_unfold [OF w0(2)])
  then show ?thesis using near w0(1) by (cases "huge \<le> \<bar>y\<bar>") simp_all
qed

lemma to_double_grows:
  assumes "200 \<le> x"
  shows "to_double (x * (3 / 2)) = PosInf \<or>
         (\<exists>y. to_double (x * (3 / 2)) = Finite y \<and> x * (5 / 4) \<le> y)"
proof -
  have h: "1 \<le> x * (3 / 2)" using assms by simp
  have eq: "x * (3 / 2) * (5 / 6) = x * (5 / 4)" by simp
  show ?thesis using to_double_near [OF h] unfolding eq .
qed

lemma ilog2_unique:
  assumes "0 < x" and "2 powi e \<le> x" and "x < 2 powi (e + 1)"
  shows "ilog2 x = e"
proof -
  have "2 powi (ilog2 x) < (2::rat) powi (e + 1)" using ilog2_le [OF assms(1)] assms(3) by linarith
  then have "\<not> (2::rat) powi (e + 1) \<le> 2 powi (ilog2 x)" by linarith
  then have a: "\<not> e + 1 \<le> ilog2 x" unfolding powi_le_iff .
  have "2 powi e < (2::rat) powi (ilog2 x + 1)" using ilog2_gt [OF assms(1)] assms(2) by linarith
  then have "\<not> (2::rat) powi (ilog2 x + 1) \<le> 2 powi e" by linarith
  then have b: "\<not> ilog2 x + 1 \<le> e" unfolding powi_le_iff .
  show ?thesis using a b by linarith
qed

lemma round_half_even_upper: "of_int (round_half_even v) \<le> v + 1 / 2"
proof (cases "v - of_int \<lfloor>v\<rfloor> < 1 / 2")
  case True
  then have e: "round_half_even v = \<lfloor>v\<rfloor>" by (simp add: round_half_even_def)
  have "(of_int \<lfloor>v\<rfloor> :: rat) \<le> v" by (rule of_int_floor_le)
  then show ?thesis unfolding e by linarith
next
  case False
  have "of_int (round_half_even v) \<le> (of_int (\<lfloor>v\<rfloor> + 1) :: rat)"
    using round_half_even_cases [of v] by auto
  then show ?thesis using False by simp
qed

lemma round_half_even_eq:
  assumes "of_int m - 1 / 2 < v" and "v < of_int m + 1 / 2"
  shows "round_half_even v = m"
proof -
  have "(of_int (round_half_even v) :: rat) < of_int m + 1"
    using round_half_even_upper [of v] assms(2) by linarith
  then have "(of_int (round_half_even v) :: rat) < of_int (m + 1)" by simp
  then have a: "round_half_even v < m + 1" by (simp only: of_int_less_iff)
  have "(of_int m :: rat) - 1 < of_int (round_half_even v)"
    using round_half_even_near [of v] assms(1) by linarith
  then have "(of_int (m - 1) :: rat) < of_int (round_half_even v)" by simp
  then have b: "m - 1 < round_half_even v" by (simp only: of_int_less_iff)
  show ?thesis using a b by linarith
qed

lemma round_half_even_tie_up:
  assumes "v = of_int m + 1 / 2" and "even m"
  shows "round_half_even v = m"
proof -
  have f: "\<lfloor>v\<rfloor> = m" unfolding assms(1) by (rule floor_unique) simp_all
  have "v - of_int m = 1 / 2" using assms(1) by simp
  then show ?thesis using assms(2) by (simp add: round_half_even_def f)
qed

lemma round_half_even_tie_down:
  assumes "v = of_int m - 1 / 2" and "even m"
  shows "round_half_even v = m"
proof -
  have f: "\<lfloor>v\<rfloor> = m - 1" unfolding assms(1) by (rule floor_unique) simp_all
  have "v - of_int (m - 1) = 1 / 2" using assms(1) by simp
  then show ?thesis using assms(2) by (simp add: round_half_even_def f)
qed

lemma round_half_even_nearest:
  assumes "of_int m - 1 / 2 \<le> v" and "v \<le> of_int m + 1 / 2"
    and "even m \<or> (of_int m - 1 / 2 < v \<and> v < of_int m + 1 / 2)"
  shows "round_half_even v = m"
proof (cases "of_int m - 1 / 2 < v \<and> v < of_int m + 1 / 2")
  case True
  then show ?thesis using round_half_even_eq by blast
next
  case False
  then have "even m" using assms(3) by blast
  moreover have "v = of_int m - 1 / 2 \<or> v = of_int m + 1 / 2"
    using False assms(1,2) by linarith
  ultimately show ?thesis using round_half_even_tie_up round_half_even_tie_down by blast
qed

text \<open>Rounding by certificate: the binade \<open>e\<close> and the significand \<open>m\<close> of a value in the
  normal range.\<close>

lemma to_double_eval:
  assumes "2 powi e \<le> \<bar>x\<bar>" and "\<bar>x\<bar> < 2 powi (e + 1)" and "- 1022 \<le> e" and "e \<le> 1022"
    and "(of_int m - 1 / 2) * 2 powi (e - 52) \<le> x" and "x \<le> (of_int m + 1 / 2) * 2 powi (e - 52)"
    and "even m \<or> ((of_int m - 1 / 2) * 2 powi (e - 52) < x \<and> x < (of_int m + 1 / 2) * 2 powi (e - 52))"
  shows "to_double x = Finite (of_int m * 2 powi (e - 52))"
proof -
  have p: "(0::rat) < 2 powi e" by simp
  then have pos: "0 < \<bar>x\<bar>" using assms(1) by linarith
  then have x0: "x \<noteq> 0" by simp
  have "ilog2 \<bar>x\<bar> = e" using pos assms(1,2) by (rule ilog2_unique)
  then have q: "ulp_exp x = e - 52" using assms(3) by (simp add: ulp_exp_def)
  define c where "c = (2::rat) powi (e - 52)"
  have c: "0 < c" by (simp add: c_def)
  have m: "(of_int m - 1 / 2) * c / c = of_int m - 1 / 2" "(of_int m + 1 / 2) * c / c = of_int m + 1 / 2"
    using c by simp_all
  have "(of_int m - 1 / 2) * c / c \<le> x / c"
    using assms(5) c unfolding c_def by (simp only: divide_right_mono less_imp_le)
  then have a: "of_int m - 1 / 2 \<le> x / c" unfolding m .
  have "x / c \<le> (of_int m + 1 / 2) * c / c"
    using assms(6) c unfolding c_def by (simp only: divide_right_mono less_imp_le)
  then have b: "x / c \<le> of_int m + 1 / 2" unfolding m .
  have s: "even m \<or> (of_int m - 1 / 2 < x / c \<and> x / c < of_int m + 1 / 2)"
  proof (cases "even m")
    case True
    then show ?thesis by simp
  next
    case False
    then have l: "(of_int m - 1 / 2) * c < x" and u: "x < (of_int m + 1 / 2) * c"
      using assms(7) unfolding c_def by simp_all
    have "(of_int m - 1 / 2) * c / c < x / c" using l c by (simp only: divide_strict_right_mono)
    moreover have "x / c < (of_int m + 1 / 2) * c / c" using u c by (simp only: divide_strict_right_mono)
    ultimately show ?thesis unfolding m by simp
  qed
  have r: "round_half_even (x / 2 powi (e - 52)) = m"
    using a b s unfolding c_def by (rule round_half_even_nearest)
  have "(2::rat) powi (e + 1) \<le> 2 powi 1023" using assms(4) by (simp only: powi_le_iff)
  then have "\<bar>x\<bar> \<le> 2 powi 1023" using assms(2) by linarith
  from to_double_bounded [OF this] obtain y where y: "to_double x = Finite y" by auto
  show ?thesis using y unfolding to_double_unfold [OF x0] q r by (simp split: if_splits)
qed

lemma round_half_even_gt: "of_int n - 1 / 2 < v \<Longrightarrow> n \<le> round_half_even v"
proof -
  assume "of_int n - 1 / 2 < v"
  then have "(of_int n :: rat) - 1 < of_int (round_half_even v)"
    using round_half_even_near [of v] by linarith
  then have "(of_int (n - 1) :: rat) < of_int (round_half_even v)" by simp
  then have "n - 1 < round_half_even v" by (simp only: of_int_less_iff)
  then show ?thesis by linarith
qed

lemma to_double_ge_quarter:
  assumes "1 / 4 \<le> v"
  shows "to_double v = PosInf \<or> (\<exists>y. to_double v = Finite y \<and> 1 / 4 \<le> y)"
proof -
  have v: "0 < v" "v \<noteq> 0" "\<bar>v\<bar> = v" using assms by simp_all
  define e where "e = ilog2 v"
  have q4: "(2::rat) powi (- 2) = 1 / 4" by (simp add: power_int_def power_divide)
  have "(2::rat) powi (- 2) < 2 powi (e + 1)"
    using ilog2_gt [OF v(1)] assms unfolding e_def q4 by linarith
  then have "\<not> (2::rat) powi (e + 1) \<le> 2 powi (- 2)" by linarith
  then have "\<not> e + 1 \<le> - 2" unfolding powi_le_iff .
  then have e: "- 2 \<le> e" by linarith
  then have q: "ulp_exp v = e - 52" by (simp add: ulp_exp_def e_def v(3))
  define c where "c = (2::rat) powi (e - 52)"
  have c: "0 < c" by (simp add: c_def)
  have split: "of_int (2 ^ 52) * c = 2 powi e"
    using powi_split [of "e - 52" e] unfolding c_def by simp
  have "2 powi e \<le> v" unfolding e_def by (rule ilog2_le [OF v(1)])
  then have "of_int (2 ^ 52) * c \<le> v" unfolding split .
  then have "of_int (2 ^ 52) * c / c \<le> v / c" using c by (simp only: divide_right_mono less_imp_le)
  then have "of_int (2 ^ 52) \<le> v / c" using c by simp
  then have "2 ^ 52 \<le> round_half_even (v / c)" by (rule round_half_even_ge)
  then have "(of_int (2 ^ 52) :: rat) \<le> of_int (round_half_even (v / c))"
    by (simp only: of_int_le_iff)
  then have "of_int (2 ^ 52) * c \<le> of_int (round_half_even (v / c)) * c"
    using c by (simp only: mult_right_mono less_imp_le)
  then have "2 powi e \<le> of_int (round_half_even (v / c)) * c" unfolding split .
  moreover have "(2::rat) powi (- 2) \<le> 2 powi e" using e by (simp only: powi_le_iff)
  ultimately have y: "1 / 4 \<le> of_int (round_half_even (v / c)) * c" unfolding q4 by linarith
  show ?thesis
    using y v(1) unfolding to_double_unfold [OF v(2)] q c_def by simp
qed

lemma to_double_ge_fifth:
  assumes "1 / 5 \<le> v"
  shows "to_double v = PosInf \<or> (\<exists>y. to_double v = Finite y \<and> 1 / 5 \<le> y)"
proof (cases "1 / 4 \<le> v")
  case True
  from to_double_ge_quarter [OF this] show ?thesis
  proof
    assume "to_double v = PosInf"
    then show ?thesis by simp
  next
    assume "\<exists>y. to_double v = Finite y \<and> 1 / 4 \<le> y"
    then obtain y where "to_double v = Finite y" "1 / 4 \<le> y" by blast
    moreover have "(1 / 5 :: rat) \<le> 1 / 4" by simp
    ultimately have "to_double v = Finite y \<and> 1 / 5 \<le> y" by linarith
    then show ?thesis by blast
  qed
next
  case False
  have v: "0 < v" "v \<noteq> 0" "\<bar>v\<bar> = v" using assms by simp_all
  have q8: "(2::rat) powi (- 3) = 1 / 8" and q4: "(2::rat) powi (- 3 + 1) = 1 / 4"
    by (simp_all add: power_int_def power_divide)
  have "2 powi (- 3) \<le> v" "v < 2 powi (- 3 + 1)"
    unfolding q8 q4 using assms False by linarith+
  with v(1) have "ilog2 v = - 3" by (rule ilog2_unique)
  then have q: "ulp_exp v = - 55" by (simp add: ulp_exp_def v(3))
  define c where "c = (2::rat) powi (- 55)"
  have cv: "c = 1 / 36028797018963968" by (simp add: c_def power_int_def power_divide)
  have c: "0 < c" by (simp add: c_def)
  have "of_int 7205759403792794 - 1 / 2 < v / c" using assms unfolding cv by simp
  then have "7205759403792794 \<le> round_half_even (v / c)" by (rule round_half_even_gt)
  then have "(of_int 7205759403792794 :: rat) \<le> of_int (round_half_even (v / c))"
    by (simp only: of_int_le_iff)
  then have "of_int 7205759403792794 * c \<le> of_int (round_half_even (v / c)) * c"
    using c by (simp only: mult_right_mono less_imp_le)
  moreover have "1 / 5 \<le> of_int 7205759403792794 * c" unfolding cv by simp
  ultimately have y: "1 / 5 \<le> of_int (round_half_even (v / c)) * c" by linarith
  define Y where "Y = of_int (round_half_even (v / c)) * c"
  have "to_double v = (if huge \<le> \<bar>Y\<bar> then (if 0 < v then PosInf else NegInf) else Finite Y)"
    unfolding Y_def c_def using to_double_unfold [OF v(2)] unfolding q .
  then show ?thesis using y v(1) unfolding Y_def [symmetric] by (cases "huge \<le> \<bar>Y\<bar>") simp_all
qed

lemma round_half_even_of_int: "round_half_even (of_int n) = n"
  by (rule round_half_even_eq) simp_all

lemma to_double_exact:
  assumes "x = of_int m * 2 powi q" and "\<bar>m\<bar> < 2 ^ 53" and "- 1074 \<le> q" and "q \<le> 970"
  shows "to_double x = Finite x"
proof (cases "x = 0")
  case True
  then show ?thesis by (simp add: to_double_def)
next
  case False
  then have pos: "0 < \<bar>x\<bar>" by simp
  define u where "u = ulp_exp x"
  have "(of_int \<bar>m\<bar> :: rat) < of_int (2 ^ 53)" using assms(2) by (simp only: of_int_less_iff)
  then have m: "\<bar>of_int m :: rat\<bar> < 2 powi 53" by (simp add: power_int_def)
  have p: "(0 :: rat) < 2 powi q" by simp
  have "\<bar>x\<bar> = \<bar>of_int m\<bar> * 2 powi q" unfolding assms(1) by (simp add: abs_mult)
  also have "\<dots> < 2 powi 53 * 2 powi q" using m p by (rule mult_strict_right_mono)
  also have "\<dots> = 2 powi (53 + q)" by (rule power_int_add [symmetric]) simp
  finally have lt: "\<bar>x\<bar> < 2 powi (53 + q)" .
  then have "2 powi (ilog2 \<bar>x\<bar>) < (2 :: rat) powi (53 + q)" using ilog2_le [OF pos] by linarith
  then have "\<not> (2 :: rat) powi (53 + q) \<le> 2 powi (ilog2 \<bar>x\<bar>)" by linarith
  then have "\<not> 53 + q \<le> ilog2 \<bar>x\<bar>" unfolding powi_le_iff .
  then have uq: "u \<le> q" using assms(3) by (simp add: u_def ulp_exp_def)
  define M where "M = m * 2 ^ nat (q - u)"
  have c: "(0 :: rat) < 2 powi u" by simp
  have split: "of_int (2 ^ nat (q - u)) * (2 :: rat) powi u = 2 powi q" by (rule powi_split [OF uq])
  have "of_int M * (2 :: rat) powi u = of_int m * (of_int (2 ^ nat (q - u)) * 2 powi u)"
    by (simp add: M_def)
  then have Mx: "of_int M * (2 :: rat) powi u = x" unfolding split assms(1) .
  then have "x / 2 powi u = of_int M" using c by (simp add: field_simps)
  then have r: "round_half_even (x / 2 powi u) = M" by (simp only: round_half_even_of_int)
  have "(2 :: rat) powi (53 + q) \<le> 2 powi 1023" using assms(4) by (simp only: powi_le_iff)
  then have "\<bar>x\<bar> \<le> 2 powi 1023" using lt by linarith
  from to_double_bounded [OF this] obtain y where y: "to_double x = Finite y" by auto
  have v: "to_double x =
     (if huge \<le> \<bar>x\<bar> then (if 0 < x then PosInf else NegInf) else Finite x)"
    using to_double_unfold [OF False] unfolding u_def [symmetric] r Mx .
  show ?thesis
  proof (cases "huge \<le> \<bar>x\<bar>")
    case True
    then have "to_double x = PosInf \<or> to_double x = NegInf" using v by simp
    then show ?thesis using y by auto
  next
    case False
    then show ?thesis using v by simp
  qed
qed

lemma backoff_closed_form: "200 * (3 / 2) ^ n = of_int (25 * 3 ^ n) * (2 :: rat) powi (3 - int n)"
proof -
  have "(2 :: rat) powi (3 - int n) = 2 powi 3 / 2 powi (int n)"
    by (rule power_int_diff) simp
  also have "\<dots> = 8 / 2 ^ n" by (simp add: power_int_def)
  finally show ?thesis by (simp add: power_divide)
qed

lemma interval_at_exact: "k \<le> 30 \<Longrightarrow> interval_at k = Finite (200 * (3 / 2) ^ k)"
proof (induction k)
  case 0
  show ?case by simp
next
  case (Suc k)
  have "(3 :: int) ^ Suc k \<le> 3 ^ 30" using Suc.prems by (intro power_increasing) simp_all
  then have "\<bar>25 * 3 ^ Suc k :: int\<bar> < 2 ^ 53" by simp
  moreover have "- 1074 \<le> 3 - int (Suc k)" "3 - int (Suc k) \<le> 970" using Suc.prems by simp_all
  ultimately have "to_double (200 * (3 / 2) ^ Suc k) = Finite (200 * (3 / 2) ^ Suc k)"
    using to_double_exact [OF backoff_closed_form [of "Suc k"]] by blast
  then show ?case using Suc by simp
qed

lemma interval_at_rounded: "interval_at 31 \<noteq> Finite (200 * (3 / 2) ^ 31)"
proof -
  have e: "interval_at 30 = Finite (200 * (3 / 2) ^ 30)" by (rule interval_at_exact) simp
  have s: "(31 :: nat) = Suc 30" by simp
  have "to_double (15441834907098675 / 268435456) = Finite (3860458726774669 / 67108864)"
    using to_double_eval [of 25 "15441834907098675 / 268435456" 7720917453549338]
    by (simp add: power_int_def power_divide)
  moreover have "interval_at 31 = dmul (interval_at 30) (Finite (3 / 2))"
    by (simp only: s interval_at.simps)
  ultimately show ?thesis by (simp add: e power_divide)
qed

subsection \<open>The polling loop\<close>

lemma handleAPIError_frame:
  "handleAPIError e s = (s', x) \<Longrightarrow>
     timeElapsed s' = timeElapsed s \<and> backoffIntervalMs s' = backoffIntervalMs s \<and>
     polls s' = polls s \<and> trace s' = trace s \<and> isPending s' = isPending s \<and> lastTxn s' = lastTxn s"
  by (auto simp: handleAPIError_def Let_def split: exn.splits if_splits)

lemma observe_frame:
  "observe r s = (s', x) \<Longrightarrow>
     timeElapsed s' = timeElapsed s \<and> backoffIntervalMs s' = backoffIntervalMs s \<and>
     polls s' = polls s \<and> trace s' = trace s"
  by (cases r) (auto simp: observe_def dest: handleAPIError_frame)

lemma poll_body_continue:
  assumes "poll_body ev timeout s = Inr s'"
  shows "\<not> dge (timeElapsed s) timeout \<and>
     timeElapsed s' = dadd (timeElapsed s) (ddiv (backoffIntervalMs s) (Finite 1000)) \<and>
     backoffIntervalMs s' = dmul (backoffIntervalMs s) (Finite (3 / 2)) \<and>
     polls s' = Suc (polls s) \<and>
     trace s' = trace s @ [Fetch_by_hash, Sleep (backoffIntervalMs s)] \<and> isPending s'"
  using assms
  by (auto simp: poll_body_def back_off_def backoffMultiplier_def
      split: if_splits prod.splits option.splits dest!: observe_frame)

lemma poll_events_Suc: "poll_events (Suc n) = poll_events n @ [Fetch_by_hash, Sleep (interval_at n)]"
  by (simp add: poll_events_def)

lemma handleAPIError_ApiError:
  "handleAPIError (ApiError a) s =
     (s\<lparr>lastError := Some a\<rparr>, if fatal a then Some (ApiError a) else None)"
  by (simp add: handleAPIError_def fatal_def Let_def)

lemma handleAPIError_other:
  "\<forall>a. e \<noteq> ApiError a \<Longrightarrow> handleAPIError e s = (s, Some e)"
  by (cases e) (simp_all add: handleAPIError_def)

lemma observe_cases:
  assumes "observe r s = (s', x)"
  obtains (got) t where "r = Inr t" "s' = s\<lparr>lastTxn := Some t, isPending := (ttype t = Pending)\<rparr>"
      "x = None"
    | (api) a where "r = Inl (ApiError a)" "s' = s\<lparr>lastError := Some a\<rparr>"
      "x = (if fatal a then Some (ApiError a) else None)"
    | (other) e where "r = Inl e" "\<forall>a. e \<noteq> ApiError a" "s' = s" "x = Some e"
proof (cases r)
  case (Inr t)
  then show ?thesis using assms got by (simp add: observe_def)
next
  case (Inl e)
  show ?thesis
  proof (cases "\<exists>a. e = ApiError a")
    case True
    then obtain a where "e = ApiError a" by blast
    then show ?thesis using assms Inl api [of a]
      by (simp add: observe_def handleAPIError_ApiError)
  next
    case False
    then have ne: "\<forall>a. e \<noteq> ApiError a" by blast
    show ?thesis using assms Inl other [OF Inl ne] handleAPIError_other [OF ne]
      by (simp add: observe_def)
  qed
qed

lemma observe_still_waiting:
  assumes "still_waiting r" and "isPending s"
  shows "\<exists>s'. observe r s = (s', None) \<and> isPending s' \<and>
     (\<forall>t. r = Inr t \<longrightarrow> s' = s\<lparr>lastTxn := Some t, isPending := True\<rparr>) \<and>
     (\<forall>a. r = Inl (ApiError a) \<longrightarrow> s' = s\<lparr>lastError := Some a\<rparr>)"
proof (cases r)
  case (Inr t)
  then show ?thesis using assms by (simp add: observe_def)
next
  case (Inl e)
  then show ?thesis using assms
    by (cases e) (simp_all add: observe_def handleAPIError_ApiError)
qed

lemma poll_body_Inr:
  assumes "poll_body ev timeout s = Inr s'"
  obtains s1 where "\<not> dge (timeElapsed s) timeout"
    "observe (getTransactionByHash ev (Suc (polls s)))
        (s\<lparr>polls := Suc (polls s), trace := trace s @ [Fetch_by_hash]\<rparr>) = (s1, None)"
    "isPending s1" "s' = back_off s1"
  using assms
  by (auto simp: poll_body_def split: if_splits prod.splits option.splits)

lemma poll_body_Inl:
  assumes "poll_body ev timeout s = Inl (s', x)"
  obtains (timed_out) "dge (timeElapsed s) timeout" "s' = s" "x = None"
    | (answered) "\<not> dge (timeElapsed s) timeout"
      "observe (getTransactionByHash ev (Suc (polls s)))
        (s\<lparr>polls := Suc (polls s), trace := trace s @ [Fetch_by_hash]\<rparr>) = (s', x)"
      "x = None \<Longrightarrow> \<not> isPending s'"
  using assms
  by (auto simp: poll_body_def split: if_splits prod.splits option.splits)

lemma loop_inv_step:
  assumes inv: "loop_inv ev timeout s" and body: "poll_body ev timeout s = Inr s'"
  shows "loop_inv ev timeout s'"
proof -
  from body obtain s1 where lt: "\<not> dge (timeElapsed s) timeout"
    and ob: "observe (getTransactionByHash ev (Suc (polls s)))
        (s\<lparr>polls := Suc (polls s), trace := trace s @ [Fetch_by_hash]\<rparr>) = (s1, None)"
    and pend: "isPending s1" and s': "s' = back_off s1"
    by (rule poll_body_Inr)
  have earlier: "\<forall>k<Suc (polls s). \<not> dge (counter_at (long_wait_secs ev) k) timeout"
    using inv lt by (auto simp: loop_inv_def less_Suc_eq)
  from ob show ?thesis
  proof (cases rule: observe_cases)
    case (got t)
    then have "still_waiting (getTransactionByHash ev (Suc (polls s)))" using pend by simp
    then have answers: "\<forall>k<Suc (polls s). still_waiting (getTransactionByHash ev (Suc k))"
      using inv by (auto simp: loop_inv_def less_Suc_eq)
    show ?thesis using got inv earlier answers pend unfolding s' loop_inv_def
      by (simp add: back_off_def backoffMultiplier_def poll_events_Suc last_answer_def)
  next
    case (api a)
    then have "still_waiting (getTransactionByHash ev (Suc (polls s)))"
      by (simp split: if_splits)
    then have answers: "\<forall>k<Suc (polls s). still_waiting (getTransactionByHash ev (Suc k))"
      using inv by (auto simp: loop_inv_def less_Suc_eq)
    show ?thesis using api inv earlier answers pend unfolding s' loop_inv_def
      by (simp add: back_off_def backoffMultiplier_def poll_events_Suc last_answer_def)
  next
    case (other e)
    then show ?thesis by simp
  qed
qed

lemma poll_partial_aux:
  "poll ev timeout s = Some r \<Longrightarrow>
     loop_inv ev timeout s \<longrightarrow>
     (\<exists>sl. loop_inv ev timeout sl \<and>
        (if isPending sl then poll_body ev timeout sl = Inl r else r = (sl, None)))"
proof (induct rule: poll.raw_induct [rotated 1, consumes 1])
  case (1 poll' ev timeout s r)
  show ?case
  proof
    assume inv: "loop_inv ev timeout s"
    show "\<exists>sl. loop_inv ev timeout sl \<and>
        (if isPending sl then poll_body ev timeout sl = Inl r else r = (sl, None))"
    proof (cases "isPending s")
      case False
      then show ?thesis using 1(2) inv by (auto intro!: exI [of _ s])
    next
      case True
      show ?thesis
      proof (cases "poll_body ev timeout s")
        case (Inl r')
        then show ?thesis using 1(2) inv True by (auto intro!: exI [of _ s])
      next
        case (Inr s')
        then have "poll' ev timeout s' = Some r" using 1(2) True by simp
        from 1(1) [OF this] loop_inv_step [OF inv Inr] show ?thesis by blast
      qed
    qed
  qed
qed

lemma poll_partial:
  assumes "poll ev timeout s = Some (s', x)" and "loop_inv ev timeout s"
  shows "after_loop ev timeout s' x"
  using poll_partial_aux [OF assms(1)] assms(2) unfolding after_loop_def by auto

lemma after_loop_cases:
  assumes "after_loop ev timeout s x"
  obtains (stopped) "loop_inv ev timeout s" "x = None"
      "isPending s \<longrightarrow> dge (timeElapsed s) timeout"
    | (answered) sl where "loop_inv ev timeout sl" "isPending sl"
      "\<not> dge (timeElapsed sl) timeout"
      "observe (getTransactionByHash ev (Suc (polls sl)))
        (sl\<lparr>polls := Suc (polls sl), trace := trace sl @ [Fetch_by_hash]\<rparr>) = (s, x)"
      "x = None \<longrightarrow> \<not> isPending s"
proof -
  from assms obtain sl where inv: "loop_inv ev timeout sl"
    and ex: "if isPending sl then poll_body ev timeout sl = Inl (s, x) else (s, x) = (sl, None)"
    unfolding after_loop_def by blast
  show ?thesis
  proof (cases "isPending sl")
    case False
    then show ?thesis using inv ex stopped by simp
  next
    case True
    then have "poll_body ev timeout sl = Inl (s, x)" using ex by simp
    then show ?thesis
    proof (cases rule: poll_body_Inl)
      case timed_out
      then show ?thesis using inv stopped by simp
    next
      case answered': answered
      then show ?thesis using inv True answered [of sl] by blast
    qed
  qed
qed

lemma after_loop_pending_shape:
  assumes "after_loop ev timeout s None"
  shows "isPending s = (case lastTxn s of None \<Rightarrow> True | Some t \<Rightarrow> ttype t = Pending)"
  using assms
proof (cases rule: after_loop_cases)
  case stopped
  then show ?thesis by (simp add: loop_inv_def)
next
  case (answered sl)
  from answered(4) show ?thesis
  proof (cases rule: observe_cases)
    case (got t)
    then show ?thesis by simp
  next
    case (api a)
    then show ?thesis using answered by (simp split: if_splits)
  next
    case (other e)
    then show ?thesis by simp
  qed
qed

lemma after_loop_timeout:
  assumes "after_loop ev timeout s None" "isPending s"
  shows "dge (timeElapsed s) timeout \<and>
         timeElapsed s = counter_at (long_wait_secs ev) (polls s) \<and>
         trace s = [Fetch_by_hash, Long_wait] @ poll_events (polls s)"
  using assms(1)
proof (cases rule: after_loop_cases)
  case stopped
  then show ?thesis using assms(2) by (simp add: loop_inv_def)
next
  case (answered sl)
  then show ?thesis using assms(2) by simp
qed

lemma after_loop_last_error:
  assumes "after_loop ev timeout s None" "lastTxn s = None"
  shows "\<exists>a. lastError s = Some a \<and> last_answer ev (polls s) = Inl (ApiError a)"
proof -
  have "isPending s" using after_loop_pending_shape [OF assms(1)] assms(2) by simp
  from assms(1) show ?thesis
  proof (cases rule: after_loop_cases)
    case stopped
    then show ?thesis using assms(2) by (simp add: loop_inv_def)
  next
    case (answered sl)
    then show ?thesis using \<open>isPending s\<close> by simp
  qed
qed

lemma after_loop_started_in_time:
  assumes "after_loop ev timeout s x"
  shows "\<forall>k<polls s. \<not> dge (counter_at (long_wait_secs ev) k) timeout"
  using assms
proof (cases rule: after_loop_cases)
  case stopped
  then show ?thesis by (simp add: loop_inv_def)
next
  case (answered sl)
  have "polls s = Suc (polls sl)" using observe_frame [OF answered(4)] by simp
  moreover have "\<not> dge (counter_at (long_wait_secs ev) (polls sl)) timeout"
    "\<forall>k<polls sl. \<not> dge (counter_at (long_wait_secs ev) k) timeout"
    using answered(1,3) by (simp_all add: loop_inv_def)
  ultimately show ?thesis by (auto simp: less_Suc_eq)
qed


lemma initial_fetch_facts:
  assumes "initial_fetch ev = (s0, x0)"
  shows "polls s0 = 0 \<and> trace s0 = [Fetch_by_hash] \<and> backoffIntervalMs s0 = Finite 200 \<and>
     (x0 = None \<longrightarrow> isPending s0 = (case lastTxn s0 of None \<Rightarrow> True | Some t \<Rightarrow> ttype t = Pending)) \<and>
     (\<forall>e. x0 = Some e \<longrightarrow> getTransactionByHash ev 0 = Inl e) \<and>
     (\<forall>t. lastTxn s0 = Some t \<longrightarrow> getTransactionByHash ev 0 = Inr t)"
  using assms unfolding initial_fetch_def
  by (cases rule: observe_cases) (simp_all add: initial_state_def)

lemma long_wait_facts:
  assumes "long_wait ev s0 = (s1, x1)" "isPending s0" "polls s0 = 0" "trace s0 = [Fetch_by_hash]"
    "backoffIntervalMs s0 = Finite 200"
    "isPending s0 = (case lastTxn s0 of None \<Rightarrow> True | Some t \<Rightarrow> ttype t = Pending)"
  shows "polls s1 = 0 \<and> trace s1 = [Fetch_by_hash, Long_wait] \<and>
     (\<forall>e. x1 = Some e \<longrightarrow> longWaitForTransaction ev = Inl e) \<and>
     (x1 = None \<longrightarrow> loop_inv ev timeout s1)"
proof -
  obtain s' where ob: "observe (longWaitForTransaction ev) (s0\<lparr>trace := trace s0 @ [Long_wait]\<rparr>) = (s', x1)"
    and s1: "s1 = (if x1 = None then s'\<lparr>timeElapsed := long_wait_secs ev\<rparr> else s')"
    using assms(1,2) by (auto simp: long_wait_def split: prod.splits option.splits)
  from ob show ?thesis
  proof (cases rule: observe_cases)
    case (got t)
    then show ?thesis using assms(3-5) unfolding s1 loop_inv_def
      by (simp add: poll_events_def last_answer_def)
  next
    case (api a)
    then show ?thesis using assms(2-6) unfolding s1 loop_inv_def
      by (simp add: poll_events_def last_answer_def)
  next
    case (other e)
    then show ?thesis using assms(3-5) unfolding s1 by simp
  qed
qed

lemma fetching_cases:
  assumes "fetching ev options = Some (s, x)"
  obtains (thrown_first) e where "x = Some e"
      "polls s = 0" "trace s = [Fetch_by_hash]" "getTransactionByHash ev 0 = Inl e"
    | (done_first) t where "x = None"
      "getTransactionByHash ev 0 = Inr t" "ttype t \<noteq> Pending" "lastTxn s = Some t"
      "\<not> isPending s" "polls s = 0" "trace s = [Fetch_by_hash]"
    | (thrown_long) e where "x = Some e"
      "polls s = 0" "trace s = [Fetch_by_hash, Long_wait]" "longWaitForTransaction ev = Inl e"
    | (looped) "after_loop ev (timeout_of ev options) s x"
proof -
  obtain s0 x0 where i: "initial_fetch ev = (s0, x0)" by (cases "initial_fetch ev")
  note f0 = initial_fetch_facts [OF i]
  show ?thesis
  proof (cases x0)
    case (Some e)
    then show ?thesis using i f0 thrown_first [of e] assms by (simp add: fetching_def)
  next
    case None
    show ?thesis
    proof (cases "isPending s0")
      case False
      then obtain t where t: "lastTxn s0 = Some t" "ttype t \<noteq> Pending"
        using f0 None by (auto split: option.splits)
      have "fetching ev options = Some (s0, None)"
        using i None False by (simp add: fetching_def long_wait_def poll.simps)
      then show ?thesis using done_first [of t] t f0 False assms by simp
    next
      case True
      obtain s1 x1 where l: "long_wait ev s0 = (s1, x1)" by (cases "long_wait ev s0")
      have f1: "polls s1 = 0 \<and> trace s1 = [Fetch_by_hash, Long_wait] \<and>
         (\<forall>e. x1 = Some e \<longrightarrow> longWaitForTransaction ev = Inl e) \<and>
         (x1 = None \<longrightarrow> loop_inv ev (timeout_of ev options) s1)"
        using long_wait_facts [OF l True] f0 None by simp
      show ?thesis
      proof (cases x1)
        case (Some e)
        then show ?thesis using i None l f1 thrown_long [of e] assms by (simp add: fetching_def)
      next
        case None': None
        then have inv: "loop_inv ev (timeout_of ev options) s1"
          using f1 by simp
        have "poll ev (timeout_of ev options) s1 = Some (s, x)"
          using i None l None' assms by (simp add: fetching_def)
        from poll_partial [OF this inv] show ?thesis by (rule looped)
      qed
    qed
  qed
qed

lemma fetching_propagates:
  "fetching ev options = Some (s, x) \<Longrightarrow>
     waitForTransaction ev h options =
       Some (case x of Some e \<Rightarrow> Inl e
             | None \<Rightarrow> conclude h (timeout_of ev options) (checkSuccess_of options) s)"
  by (simp add: waitForTransaction_def split: option.splits)


lemma time_value_bounded: "\<bar>of_int (Rep_time_value t) :: rat\<bar> \<le> 2 powi 53"
proof -
  have "\<bar>Rep_time_value t\<bar> \<le> 8640000000000000" using Rep_time_value [of t] by auto
  then have "(of_int \<bar>Rep_time_value t\<bar> :: rat) \<le> of_int 8640000000000000"
    by (simp only: of_int_le_iff)
  then have "\<bar>of_int (Rep_time_value t) :: rat\<bar> \<le> 8640000000000000" by simp
  also have "(8640000000000000 :: rat) \<le> 2 ^ 53" by simp
  also have "(2 :: rat) ^ 53 = 2 powi 53" by (simp only: power_int_numeral)
  finally show ?thesis .
qed

lemma powi_54: "(2 :: rat) powi 53 + 2 powi 53 = 2 powi 54"
proof -
  have "(2 :: rat) ^ 53 + 2 ^ 53 = 2 ^ 54" by simp
  then show ?thesis by (simp only: power_int_numeral)
qed

lemma long_wait_secs_finite: "\<exists>t. long_wait_secs ev = Finite t \<and> - (2 powi 54) \<le> t"
proof -
  obtain a where a: "of_time (Date_now_end ev) = Finite a" "\<bar>a\<bar> \<le> 2 powi 53"
    unfolding of_time_def
    using to_double_bounded [OF time_value_bounded [of "Date_now_end ev"]] by auto
  obtain b where b: "of_time (Date_now_start ev) = Finite b" "\<bar>b\<bar> \<le> 2 powi 53"
    unfolding of_time_def
    using to_double_bounded [OF time_value_bounded [of "Date_now_start ev"]] by auto
  have "\<bar>a - b\<bar> \<le> 2 powi 53 + 2 powi 53" using a(2) b(2) by linarith
  then have "\<bar>a - b\<bar> \<le> 2 powi 54" by (simp only: powi_54)
  from to_double_bounded [OF this] obtain c
    where c: "to_double (a - b) = Finite c" "\<bar>c\<bar> \<le> 2 powi 54" by auto
  have "\<bar>c / 1000\<bar> \<le> \<bar>c\<bar>" by (simp add: abs_divide)
  then have "\<bar>c / 1000\<bar> \<le> 2 powi 54" using c(2) by linarith
  from to_double_bounded [OF this] obtain t
    where t: "to_double (c / 1000) = Finite t" "\<bar>t\<bar> \<le> 2 powi 54" by auto
  have "long_wait_secs ev = Finite t"
    by (simp add: long_wait_secs_def a(1) b(1) dsub_def c(1) t(1))
  moreover have "- (2 powi 54) \<le> t" using t(2) by linarith
  ultimately show ?thesis by blast
qed

lemma dmul_interval:
  assumes "200 \<le> x"
  shows "dmul (Finite x) (Finite (3 / 2)) = PosInf \<or>
     (\<exists>y. dmul (Finite x) (Finite (3 / 2)) = Finite y \<and> x * (5 / 4) \<le> y \<and> y < huge)"
proof -
  from to_double_grows [OF assms] show ?thesis
  proof
    assume "to_double (x * (3 / 2)) = PosInf"
    then show ?thesis by simp
  next
    assume "\<exists>y. to_double (x * (3 / 2)) = Finite y \<and> x * (5 / 4) \<le> y"
    then obtain y where y: "to_double (x * (3 / 2)) = Finite y" "x * (5 / 4) \<le> y" by blast
    have "\<bar>y\<bar> < huge" using y(1) by (rule to_double_Finite_less)
    then have "y < huge" by linarith
    then show ?thesis using y by simp
  qed
qed

lemma ddiv_interval:
  assumes "0 \<le> x"
  shows "ddiv (Finite x) (Finite 1000) = PosInf \<or>
     (\<exists>y. ddiv (Finite x) (Finite 1000) = Finite y \<and> 0 \<le> y)"
proof -
  have "0 \<le> x / 1000" using assms by simp
  from to_double_nonneg [OF this] show ?thesis by simp
qed

lemma dadd_counter:
  assumes "te = PosInf \<or> (\<exists>t. te = Finite t \<and> - (2 powi 54) \<le> t)"
    and "a = PosInf \<or> (\<exists>y. a = Finite y \<and> 0 \<le> y)"
  shows "dadd te a = PosInf \<or> (\<exists>t. dadd te a = Finite t \<and> - (2 powi 54) \<le> t)"
proof (cases "te = PosInf \<or> a = PosInf")
  case True
  then show ?thesis using assms by auto
next
  case False
  then obtain t y where t: "te = Finite t" "- (2 powi 54) \<le> t" and y: "a = Finite y" "0 \<le> y"
    using assms by auto
  have "- (2 powi 54) \<le> t + y" using t(2) y(2) by linarith
  from to_double_above [OF this] show ?thesis by (simp add: t(1) y(1))
qed

lemma sane_step:
  assumes "sane s" and "poll_body ev timeout s = Inr s'"
  shows "sane s'"
proof -
  note c = poll_body_continue [OF assms(2)]
  have te: "timeElapsed s = PosInf \<or> (\<exists>t. timeElapsed s = Finite t \<and> - (2 powi 54) \<le> t)"
    and b: "backoffIntervalMs s = PosInf \<or>
      (\<exists>x. backoffIntervalMs s = Finite x \<and> 200 \<le> x \<and> x < huge)"
    using assms(1) by (simp_all add: sane_def)
  have a: "ddiv (backoffIntervalMs s) (Finite 1000) = PosInf \<or>
     (\<exists>y. ddiv (backoffIntervalMs s) (Finite 1000) = Finite y \<and> 0 \<le> y)"
  proof (cases "backoffIntervalMs s = PosInf")
    case True
    then show ?thesis by simp
  next
    case False
    then obtain x where x: "backoffIntervalMs s = Finite x" "200 \<le> x" using b by blast
    then have "0 \<le> x" by linarith
    from ddiv_interval [OF this] show ?thesis by (simp only: x(1))
  qed
  have te': "timeElapsed s' = PosInf \<or> (\<exists>t. timeElapsed s' = Finite t \<and> - (2 powi 54) \<le> t)"
    using dadd_counter [OF te a] c by simp
  have b': "backoffIntervalMs s' = PosInf \<or>
      (\<exists>x. backoffIntervalMs s' = Finite x \<and> 200 \<le> x \<and> x < huge)"
  proof (cases "backoffIntervalMs s = PosInf")
    case True
    then show ?thesis using c by simp
  next
    case False
    then obtain x where x: "backoffIntervalMs s = Finite x" "200 \<le> x" using b by blast
    from dmul_interval [OF x(2)] show ?thesis
    proof
      assume "dmul (Finite x) (Finite (3 / 2)) = PosInf"
      then show ?thesis using c x(1) by simp
    next
      assume "\<exists>y. dmul (Finite x) (Finite (3 / 2)) = Finite y \<and> x * (5 / 4) \<le> y \<and> y < huge"
      then obtain y where y: "dmul (Finite x) (Finite (3 / 2)) = Finite y" "x * (5 / 4) \<le> y"
        "y < huge" by blast
      have "200 \<le> y" using x(2) y(2) by linarith
      then show ?thesis using c x(1) y(1,3) by simp
    qed
  qed
  show ?thesis using te' b' by (simp add: sane_def)
qed

lemma dge_PosInf: "timeout \<noteq> NaN \<Longrightarrow> dge PosInf timeout"
  by (cases timeout) simp_all

lemma fuel_step:
  assumes "sane s" and "fuel (Suc k) s" and "poll_body ev timeout s = Inr s'"
    and "timeout \<noteq> NaN"
  shows "fuel k s'"
proof -
  note c = poll_body_continue [OF assms(3)]
  have te: "timeElapsed s = PosInf \<or> (\<exists>t. timeElapsed s = Finite t \<and> - (2 powi 54) \<le> t)"
    and b: "backoffIntervalMs s = PosInf \<or>
      (\<exists>x. backoffIntervalMs s = Finite x \<and> 200 \<le> x \<and> x < huge)"
    using assms(1) by (simp_all add: sane_def)
  have "timeElapsed s \<noteq> PosInf" using c dge_PosInf [OF assms(4)] by auto
  then obtain t where t: "timeElapsed s = Finite t" using te by blast
  show ?thesis
  proof (cases "backoffIntervalMs s = PosInf")
    case True
    then have "timeElapsed s' = PosInf" using c t by simp
    then show ?thesis by (simp add: fuel_def)
  next
    case False
    then obtain x where x: "backoffIntervalMs s = Finite x" "200 \<le> x" "x < huge"
      using b by blast
    have f: "0 < k" "huge \<le> x * (5 / 4) ^ (k - 1)"
      using assms(2) x(1) t by (simp_all add: fuel_def)
    from dmul_interval [OF x(2)] show ?thesis
    proof
      assume "dmul (Finite x) (Finite (3 / 2)) = PosInf"
      then show ?thesis using c x(1) f(1) by (simp add: fuel_def)
    next
      assume "\<exists>y. dmul (Finite x) (Finite (3 / 2)) = Finite y \<and> x * (5 / 4) \<le> y \<and> y < huge"
      then obtain y where y: "dmul (Finite x) (Finite (3 / 2)) = Finite y" "x * (5 / 4) \<le> y"
        by blast
      have "k \<noteq> 1" using f(2) x(3) by auto
      then obtain j where j: "k = Suc (Suc j)" using f(1)
        by (metis One_nat_def Suc_pred not0_implies_Suc)
      have "huge \<le> x * (5 / 4) * (5 / 4) ^ j" using f(2) j by simp
      also have "\<dots> \<le> y * (5 / 4) ^ j" using y(2) by (simp add: mult_right_mono)
      finally show ?thesis using c x(1) y(1) j by (simp add: fuel_def)
    qed
  qed
qed

lemma poll_body_Inl_polls:
  assumes "poll_body ev timeout s = Inl (s', x)"
  shows "polls s' \<le> Suc (polls s)"
  using assms
proof (cases rule: poll_body_Inl)
  case timed_out
  then show ?thesis by simp
next
  case answered
  then show ?thesis using observe_frame [OF answered(2)] by simp
qed

lemma poll_total_fuel:
  assumes T: "timeout \<noteq> NaN"
  shows "sane s \<Longrightarrow> fuel k s \<Longrightarrow>
     \<exists>r. poll ev timeout s = Some r \<and> polls (fst r) \<le> polls s + k"
proof (induction k arbitrary: s)
  case 0
  then have "timeElapsed s = PosInf" by (simp add: fuel_def)
  then have "dge (timeElapsed s) timeout" using dge_PosInf [OF T] by simp
  then have "poll_body ev timeout s = Inl (s, None)" by (simp add: poll_body_def)
  then show ?case by (subst poll.simps) simp
next
  case (Suc k)
  show ?case
  proof (cases "isPending s")
    case False
    then show ?thesis by (subst poll.simps) simp
  next
    case True
    show ?thesis
    proof (cases "poll_body ev timeout s")
      case (Inl r)
      then have "polls (fst r) \<le> Suc (polls s)"
        using poll_body_Inl_polls [of ev timeout s "fst r" "snd r"] by simp
      then show ?thesis using Inl True by (subst poll.simps) simp
    next
      case (Inr s')
      have "polls s' = Suc (polls s)" using poll_body_continue [OF Inr] by simp
      moreover obtain r where "poll ev timeout s' = Some r" "polls (fst r) \<le> polls s' + k"
        using Suc.IH [OF sane_step [OF Suc.prems(1) Inr] fuel_step [OF Suc.prems Inr T]]
        by blast
      ultimately show ?thesis using Inr True by (subst poll.simps) simp
    qed
  qed
qed

lemma enough_fuel: "huge \<le> (5 / 4) ^ (4 * 1024)"
proof -
  have "(2 :: rat) \<le> (5 / 4) ^ 4" by (simp add: power_divide)
  then have "(2 :: rat) ^ 1024 \<le> ((5 / 4) ^ 4) ^ 1024" by (rule power_mono) simp
  also have "\<dots> = (5 / 4) ^ (4 * 1024)" by (rule power_mult [symmetric])
  finally show ?thesis unfolding huge_def .
qed

lemma sane_fuel:
  assumes "sane s"
  shows "fuel (Suc (Suc (4 * 1024))) s"
proof (cases "backoffIntervalMs s = PosInf")
  case True
  then show ?thesis by (simp add: fuel_def)
next
  case False
  then obtain x where x: "backoffIntervalMs s = Finite x" "200 \<le> x"
    using assms by (auto simp: sane_def)
  have p: "(0 :: rat) \<le> (5 / 4) ^ (4 * 1024)" by (rule zero_le_power) simp
  have "huge \<le> 1 * (5 / 4) ^ (4 * 1024)" using enough_fuel by (simp only: mult_1)
  also have "\<dots> \<le> x * (5 / 4) ^ (4 * 1024)"
    by (rule mult_right_mono [OF _ p]) (use x(2) in linarith)
  finally show ?thesis using x(1) unfolding fuel_def by (simp del: power_mult)
qed

lemma poll_total:
  assumes "timeout \<noteq> NaN" and "sane s"
  shows "\<exists>r. poll ev timeout s = Some r \<and> polls (fst r) \<le> polls s + 4098"
proof -
  from poll_total_fuel [OF assms(1) assms(2) sane_fuel [OF assms(2)], of ev]
  obtain r where "poll ev timeout s = Some r" "polls (fst r) \<le> polls s + Suc (Suc (4 * 1024))"
    by blast
  moreover have "Suc (Suc (4 * 1024)) = (4098 :: nat)" by simp
  ultimately show ?thesis by (metis)
qed

lemma loop_inv_sane:
  assumes "loop_inv ev timeout s" and "polls s = 0"
  shows "sane s"
proof -
  obtain t where "long_wait_secs ev = Finite t" "- (2 powi 54) \<le> t"
    using long_wait_secs_finite by blast
  then show ?thesis using assms by (simp add: loop_inv_def sane_def huge_def)
qed

lemma fetching_total:
  assumes "timeout_of ev options \<noteq> NaN"
  shows "\<exists>s x. fetching ev options = Some (s, x) \<and> polls s \<le> 4098"
proof -
  obtain s0 x0 where i: "initial_fetch ev = (s0, x0)" by (cases "initial_fetch ev")
  note f0 = initial_fetch_facts [OF i]
  show ?thesis
  proof (cases x0)
    case (Some e)
    then show ?thesis using i f0 by (simp add: fetching_def)
  next
    case None
    show ?thesis
    proof (cases "isPending s0")
      case False
      then show ?thesis using i None f0 by (simp add: fetching_def long_wait_def poll.simps)
    next
      case True
      obtain s1 x1 where l: "long_wait ev s0 = (s1, x1)" by (cases "long_wait ev s0")
      have f1: "polls s1 = 0 \<and> trace s1 = [Fetch_by_hash, Long_wait] \<and>
         (\<forall>e. x1 = Some e \<longrightarrow> longWaitForTransaction ev = Inl e) \<and>
         (x1 = None \<longrightarrow> loop_inv ev (timeout_of ev options) s1)"
        using long_wait_facts [OF l True] f0 None by simp
      show ?thesis
      proof (cases x1)
        case (Some e)
        then show ?thesis using i None l f1 by (simp add: fetching_def)
      next
        case None': None
        then have "sane s1" using f1 loop_inv_sane by blast
        from poll_total [OF assms this, of ev] obtain r
          where "poll ev (timeout_of ev options) s1 = Some r" "polls (fst r) \<le> polls s1 + 4098"
          by blast
        then show ?thesis using i None l None' f1
          by (cases r) (simp add: fetching_def)
      qed
    qed
  qed
qed

lemma fetching_head:
  assumes "still_waiting (getTransactionByHash ev 0)"
    and "still_waiting (longWaitForTransaction ev)"
  shows "(\<forall>k<n. still_waiting (getTransactionByHash ev (Suc k))) \<Longrightarrow>
     (\<forall>k<n. \<not> dge (counter_at (long_wait_secs ev) k) (timeout_of ev options)) \<Longrightarrow>
     \<exists>sn. fetching ev options = poll ev (timeout_of ev options) sn \<and>
       loop_inv ev (timeout_of ev options) sn \<and> polls sn = n \<and> isPending sn"
proof (induction n)
  case 0
  have "isPending (initial_state\<lparr>trace := [Fetch_by_hash]\<rparr>)" by (simp add: initial_state_def)
  from observe_still_waiting [OF assms(1) this] obtain s0
    where i: "initial_fetch ev = (s0, None)" and p0: "isPending s0"
    unfolding initial_fetch_def by blast
  note f0 = initial_fetch_facts [OF i]
  have "isPending (s0\<lparr>trace := trace s0 @ [Long_wait]\<rparr>)" using p0 by simp
  from observe_still_waiting [OF assms(2) this] obtain s'
    where o: "observe (longWaitForTransaction ev) (s0\<lparr>trace := trace s0 @ [Long_wait]\<rparr>) = (s', None)"
      and p': "isPending s'" by blast
  have l: "long_wait ev s0 = (s'\<lparr>timeElapsed := long_wait_secs ev\<rparr>, None)"
    using p0 o by (simp add: long_wait_def)
  have "loop_inv ev (timeout_of ev options) (s'\<lparr>timeElapsed := long_wait_secs ev\<rparr>)"
    "polls (s'\<lparr>timeElapsed := long_wait_secs ev\<rparr>) = 0"
    using long_wait_facts [OF l p0] f0 by simp_all
  moreover have "fetching ev options =
      poll ev (timeout_of ev options) (s'\<lparr>timeElapsed := long_wait_secs ev\<rparr>)"
    using i l by (simp add: fetching_def)
  ultimately show ?case using p' by (intro exI [of _ "s'\<lparr>timeElapsed := long_wait_secs ev\<rparr>"]) simp
next
  case (Suc n)
  obtain sn where sn: "fetching ev options = poll ev (timeout_of ev options) sn"
    "loop_inv ev (timeout_of ev options) sn" "polls sn = n" "isPending sn"
    using Suc by auto
  have t: "\<not> dge (timeElapsed sn) (timeout_of ev options)"
    using Suc.prems(2) sn(2,3) by (simp add: loop_inv_def)
  have "isPending (sn\<lparr>polls := Suc (polls sn), trace := trace sn @ [Fetch_by_hash]\<rparr>)"
    using sn(4) by simp
  moreover have "still_waiting (getTransactionByHash ev (Suc (polls sn)))"
    using Suc.prems(1) sn(3) by simp
  ultimately obtain s' where o: "observe (getTransactionByHash ev (Suc (polls sn)))
      (sn\<lparr>polls := Suc (polls sn), trace := trace sn @ [Fetch_by_hash]\<rparr>) = (s', None)"
    and p': "isPending s'"
    using observe_still_waiting by blast
  have b: "poll_body ev (timeout_of ev options) sn = Inr (back_off s')"
    using t o p' by (simp add: poll_body_def)
  have "poll ev (timeout_of ev options) sn = poll ev (timeout_of ev options) (back_off s')"
    using sn(4) b by (subst poll.simps) simp
  moreover have "loop_inv ev (timeout_of ev options) (back_off s')"
    using loop_inv_step [OF sn(2) b] .
  moreover have "polls (back_off s') = Suc n \<and> isPending (back_off s')"
    using poll_body_continue [OF b] sn(3) by simp
  ultimately show ?case using sn(1) by (intro exI [of _ "back_off s'"]) simp
qed

text \<open>The scenario: the first fetch, the long poll and the first \<open>n\<close> polling requests are
  answered by a pending transaction or a retried error, and time is left before each of these
  polling requests.\<close>

lemma scenario_timeout:
  assumes "still_waiting (getTransactionByHash ev 0)"
    and "still_waiting (longWaitForTransaction ev)"
    and "\<forall>k<n. still_waiting (getTransactionByHash ev (Suc k))"
    and "\<forall>k<n. \<not> dge (counter_at (long_wait_secs ev) k) (timeout_of ev options)"
    and "dge (counter_at (long_wait_secs ev) n) (timeout_of ev options)"
  shows "\<exists>s. fetching ev options = Some (s, None) \<and> isPending s \<and> polls s = n \<and>
     trace s = [Fetch_by_hash, Long_wait] @ poll_events n \<and>
     timeElapsed s = counter_at (long_wait_secs ev) n \<and>
     (\<forall>t. last_answer ev n = Inr t \<longrightarrow> lastTxn s = Some t) \<and>
     (lastTxn s = None \<longrightarrow> (\<exists>a. lastError s = Some a \<and> last_answer ev n = Inl (ApiError a)))"
proof -
  obtain sn where sn: "fetching ev options = poll ev (timeout_of ev options) sn"
    "loop_inv ev (timeout_of ev options) sn" "polls sn = n" "isPending sn"
    using fetching_head [OF assms(1-4)] by blast
  have "dge (timeElapsed sn) (timeout_of ev options)"
    using assms(5) sn(2,3) by (simp add: loop_inv_def)
  then have "poll ev (timeout_of ev options) sn = Some (sn, None)"
    using sn(4) by (subst poll.simps) (simp add: poll_body_def)
  then show ?thesis using sn by (intro exI [of _ sn]) (simp add: loop_inv_def)
qed

lemma scenario_answer:
  assumes "still_waiting (getTransactionByHash ev 0)"
    and "still_waiting (longWaitForTransaction ev)"
    and "\<forall>k<n. still_waiting (getTransactionByHash ev (Suc k))"
    and "\<forall>k<n. \<not> dge (counter_at (long_wait_secs ev) k) (timeout_of ev options)"
    and "\<not> dge (counter_at (long_wait_secs ev) n) (timeout_of ev options)"
    and "\<not> still_waiting (getTransactionByHash ev (Suc n))"
  shows "\<exists>s x. fetching ev options = Some (s, x) \<and> polls s = Suc n \<and>
     trace s = [Fetch_by_hash, Long_wait] @ poll_events n @ [Fetch_by_hash] \<and>
     (\<forall>t. getTransactionByHash ev (Suc n) = Inr t \<longrightarrow> x = None \<and> lastTxn s = Some t) \<and>
     (\<forall>e. getTransactionByHash ev (Suc n) = Inl e \<longrightarrow> x = Some e)"
proof -
  obtain sn where sn: "fetching ev options = poll ev (timeout_of ev options) sn"
    "loop_inv ev (timeout_of ev options) sn" "polls sn = n" "isPending sn"
    using fetching_head [OF assms(1-4)] by blast
  have t: "\<not> dge (timeElapsed sn) (timeout_of ev options)"
    using assms(5) sn(2,3) by (simp add: loop_inv_def)
  have tr: "trace sn = [Fetch_by_hash, Long_wait] @ poll_events n"
    using sn(2,3) by (simp add: loop_inv_def)
  obtain s x where o: "observe (getTransactionByHash ev (Suc (polls sn)))
      (sn\<lparr>polls := Suc (polls sn), trace := trace sn @ [Fetch_by_hash]\<rparr>) = (s, x)"
    by (cases "observe (getTransactionByHash ev (Suc (polls sn)))
      (sn\<lparr>polls := Suc (polls sn), trace := trace sn @ [Fetch_by_hash]\<rparr>)")
  note fr = observe_frame [OF o]
  from o have r: "(x = None \<longrightarrow> \<not> isPending s) \<and>
     (\<forall>t. getTransactionByHash ev (Suc n) = Inr t \<longrightarrow> x = None \<and> lastTxn s = Some t) \<and>
     (\<forall>e. getTransactionByHash ev (Suc n) = Inl e \<longrightarrow> x = Some e)"
  proof (cases rule: observe_cases)
    case (got t)
    then show ?thesis using assms(6) sn(3) by simp
  next
    case (api a)
    then show ?thesis using assms(6) sn(3) by simp
  next
    case (other e)
    then show ?thesis using sn(3) by simp
  qed
  have "poll_body ev (timeout_of ev options) sn = Inl (s, x)"
    using t o r by (cases x) (simp_all add: poll_body_def)
  then have "poll ev (timeout_of ev options) sn = Some (s, x)"
    using sn(4) by (subst poll.simps) simp
  then show ?thesis using sn(1,3) fr r tr
    by (intro exI [of _ s] exI [of _ x]) simp
qed

lemma rounding_samples:
  "to_double 300 = Finite 300"
  "to_double 450 = Finite 450"
  "to_double 675 = Finite 675"
  "to_double (2025 / 2) = Finite (2025 / 2)"
  "to_double (6075 / 4) = Finite (6075 / 4)"
  "to_double (1 / 5) = Finite (3602879701896397 / 18014398509481984)"
  "to_double (3 / 10) = Finite (5404319552844595 / 18014398509481984)"
  "to_double (9 / 20) = Finite (8106479329266893 / 18014398509481984)"
  "to_double (27 / 40) = Finite (3039929748475085 / 4503599627370496)"
  "to_double (81 / 80) = Finite (4559894622712627 / 4503599627370496)"
  "to_double 1250 = Finite 1250"
  "to_double 1000 = Finite 1000"
  "to_double 250 = Finite 250"
  "to_double (1 / 4) = Finite (1 / 4)"
  "to_double (8106479329266893 / 18014398509481984) = Finite (8106479329266893 / 18014398509481984)"
  "to_double (3 / 4) = Finite (3 / 4)"
  "to_double 1045 = Finite 1045"
  "to_double 45 = Finite 45"
  "to_double (9 / 200) = Finite (3242591731706757 / 72057594037927936)"
  "to_double (17654110539292345 / 72057594037927936) = Finite (2206763817411543 / 9007199254740992)"
  "to_double (9817847187667681 / 18014398509481984) = Finite (306807724614615 / 562949953421312)"
  "to_double (17924326516934573 / 18014398509481984) = Finite (4481081629233643 / 4503599627370496)"
  "to_double (940126422213591 / 562949953421312) = Finite (940126422213591 / 562949953421312)"
  "to_double 2000 = Finite 2000"
  "to_double (- 1000) = Finite (- 1000)"
  "to_double (- 1) = Finite (- 1)"
  "to_double (- (14411518807585587 / 18014398509481984)) = Finite (- (3602879701896397 / 4503599627370496))"
  "to_double (- (9007199254740993 / 18014398509481984)) = Finite (- (1 / 2))"
  "to_double (- (900719925474099 / 18014398509481984)) = Finite (- (900719925474099 / 18014398509481984))"
  "to_double (11258999068426241 / 18014398509481984) = Finite (5 / 8)"
  "to_double (199 / 200) = Finite (8962163258467287 / 9007199254740992)"
proof -
  show "to_double 300 = Finite 300"
    using to_double_eval [of 8 "300" 5277655813324800] by (simp add: power_int_def power_divide)
  show "to_double 450 = Finite 450"
    using to_double_eval [of 8 "450" 7916483719987200] by (simp add: power_int_def power_divide)
  show "to_double 675 = Finite 675"
    using to_double_eval [of 9 "675" 5937362789990400] by (simp add: power_int_def power_divide)
  show "to_double (2025 / 2) = Finite (2025 / 2)"
    using to_double_eval [of 9 "2025 / 2" 8906044184985600] by (simp add: power_int_def power_divide)
  show "to_double (6075 / 4) = Finite (6075 / 4)"
    using to_double_eval [of 10 "6075 / 4" 6679533138739200] by (simp add: power_int_def power_divide)
  show "to_double (1 / 5) = Finite (3602879701896397 / 18014398509481984)"
    using to_double_eval [of "- 3" "1 / 5" 7205759403792794] by (simp add: power_int_def power_divide)
  show "to_double (3 / 10) = Finite (5404319552844595 / 18014398509481984)"
    using to_double_eval [of "- 2" "3 / 10" 5404319552844595] by (simp add: power_int_def power_divide)
  show "to_double (9 / 20) = Finite (8106479329266893 / 18014398509481984)"
    using to_double_eval [of "- 2" "9 / 20" 8106479329266893] by (simp add: power_int_def power_divide)
  show "to_double (27 / 40) = Finite (3039929748475085 / 4503599627370496)"
    using to_double_eval [of "- 1" "27 / 40" 6079859496950170] by (simp add: power_int_def power_divide)
  show "to_double (81 / 80) = Finite (4559894622712627 / 4503599627370496)"
    using to_double_eval [of 0 "81 / 80" 4559894622712627] by (simp add: power_int_def power_divide)
  show "to_double 1250 = Finite 1250"
    using to_double_eval [of 10 "1250" 5497558138880000] by (simp add: power_int_def power_divide)
  show "to_double 1000 = Finite 1000"
    using to_double_eval [of 9 "1000" 8796093022208000] by (simp add: power_int_def power_divide)
  show "to_double 250 = Finite 250"
    using to_double_eval [of 7 "250" 8796093022208000] by (simp add: power_int_def power_divide)
  show "to_double (1 / 4) = Finite (1 / 4)"
    using to_double_eval [of "- 2" "1 / 4" 4503599627370496] by (simp add: power_int_def power_divide)
  show "to_double (8106479329266893 / 18014398509481984) = Finite (8106479329266893 / 18014398509481984)"
    using to_double_eval [of "- 2" "8106479329266893 / 18014398509481984" 8106479329266893] by (simp add: power_int_def power_divide)
  show "to_double (3 / 4) = Finite (3 / 4)"
    using to_double_eval [of "- 1" "3 / 4" 6755399441055744] by (simp add: power_int_def power_divide)
  show "to_double 1045 = Finite 1045"
    using to_double_eval [of 10 "1045" 4595958604103680] by (simp add: power_int_def power_divide)
  show "to_double 45 = Finite 45"
    using to_double_eval [of 5 "45" 6333186975989760] by (simp add: power_int_def power_divide)
  show "to_double (9 / 200) = Finite (3242591731706757 / 72057594037927936)"
    using to_double_eval [of "- 5" "9 / 200" 6485183463413514] by (simp add: power_int_def power_divide)
  show "to_double (17654110539292345 / 72057594037927936) = Finite (2206763817411543 / 9007199254740992)"
    using to_double_eval [of "- 3" "17654110539292345 / 72057594037927936" 8827055269646172] by (simp add: power_int_def power_divide)
  show "to_double (9817847187667681 / 18014398509481984) = Finite (306807724614615 / 562949953421312)"
    using to_double_eval [of "- 1" "9817847187667681 / 18014398509481984" 4908923593833840] by (simp add: power_int_def power_divide)
  show "to_double (17924326516934573 / 18014398509481984) = Finite (4481081629233643 / 4503599627370496)"
    using to_double_eval [of "- 1" "17924326516934573 / 18014398509481984" 8962163258467286] by (simp add: power_int_def power_divide)
  show "to_double (940126422213591 / 562949953421312) = Finite (940126422213591 / 562949953421312)"
    using to_double_eval [of 0 "940126422213591 / 562949953421312" 7521011377708728] by (simp add: power_int_def power_divide)
  show "to_double 2000 = Finite 2000"
    using to_double_eval [of 10 "2000" 8796093022208000] by (simp add: power_int_def power_divide)
  show "to_double (- 1000) = Finite (- 1000)"
    using to_double_eval [of 9 "- 1000" "- 8796093022208000"] by (simp add: power_int_def power_divide)
  show "to_double (- 1) = Finite (- 1)"
    using to_double_eval [of 0 "- 1" "- 4503599627370496"] by (simp add: power_int_def power_divide)
  show "to_double (- (14411518807585587 / 18014398509481984)) = Finite (- (3602879701896397 / 4503599627370496))"
    using to_double_eval [of "- 1" "- (14411518807585587 / 18014398509481984)" "- 7205759403792794"] by (simp add: power_int_def power_divide)
  show "to_double (- (9007199254740993 / 18014398509481984)) = Finite (- (1 / 2))"
    using to_double_eval [of "- 1" "- (9007199254740993 / 18014398509481984)" "- 4503599627370496"] by (simp add: power_int_def power_divide)
  show "to_double (- (900719925474099 / 18014398509481984)) = Finite (- (900719925474099 / 18014398509481984))"
    using to_double_eval [of "- 5" "- (900719925474099 / 18014398509481984)" "- 7205759403792792"] by (simp add: power_int_def power_divide)
  show "to_double (11258999068426241 / 18014398509481984) = Finite (5 / 8)"
    using to_double_eval [of "- 1" "11258999068426241 / 18014398509481984" 5629499534213120] by (simp add: power_int_def power_divide)
  show "to_double (199 / 200) = Finite (8962163258467287 / 9007199254740992)"
    using to_double_eval [of "- 1" "199 / 200" 8962163258467287] by (simp add: power_int_def power_divide)
qed

lemma interval_at_samples:
  "interval_at 0 = Finite 200"
  "interval_at (Suc 0) = Finite 300"
  "interval_at (Suc (Suc 0)) = Finite 450"
  "interval_at (Suc (Suc (Suc 0))) = Finite 675"
  "interval_at (Suc (Suc (Suc (Suc 0)))) = Finite (2025 / 2)"
  "interval_at (Suc (Suc (Suc (Suc (Suc 0))))) = Finite (6075 / 4)"
  by (simp_all add: rounding_samples)

lemma sleep_samples:
  "ddiv (interval_at 0) (Finite 1000) = Finite (3602879701896397 / 18014398509481984)"
  "ddiv (interval_at (Suc 0)) (Finite 1000) = Finite (5404319552844595 / 18014398509481984)"
  "ddiv (interval_at (Suc (Suc 0))) (Finite 1000) = Finite (8106479329266893 / 18014398509481984)"
  "ddiv (interval_at (Suc (Suc (Suc 0)))) (Finite 1000) = Finite (3039929748475085 / 4503599627370496)"
  "ddiv (interval_at (Suc (Suc (Suc (Suc 0))))) (Finite 1000) = Finite (4559894622712627 / 4503599627370496)"
  by (simp_all add: rounding_samples)

lemma long_wait_secs_quarter:
  assumes "Date_now_start ev = at_ms 1000" and "Date_now_end ev = at_ms 1250"
  shows "long_wait_secs ev = Finite (1 / 4)"
  by (simp add: long_wait_secs_def of_time_def assms at_ms.rep_eq dsub_def rounding_samples)

lemma counter_at_quarter:
  "counter_at (Finite (1 / 4)) 0 = Finite (1 / 4)"
  "counter_at (Finite (1 / 4)) (Suc 0) = Finite (8106479329266893 / 18014398509481984)"
  "counter_at (Finite (1 / 4)) (Suc (Suc 0)) = Finite (3 / 4)"
  by (simp_all add: rounding_samples)


lemma counter_at_45ms:
  "counter_at (Finite (3242591731706757 / 72057594037927936)) 0 = Finite (3242591731706757 / 72057594037927936)"
  "counter_at (Finite (3242591731706757 / 72057594037927936)) (Suc 0) = Finite (2206763817411543 / 9007199254740992)"
  "counter_at (Finite (3242591731706757 / 72057594037927936)) (Suc (Suc 0)) = Finite (306807724614615 / 562949953421312)"
  "counter_at (Finite (3242591731706757 / 72057594037927936)) (Suc (Suc (Suc 0))) = Finite (4481081629233643 / 4503599627370496)"
  "counter_at (Finite (3242591731706757 / 72057594037927936)) (Suc (Suc (Suc (Suc 0)))) = Finite (940126422213591 / 562949953421312)"
  by (simp_all add: rounding_samples)

lemma long_wait_secs_set_back:
  assumes "Date_now_start ev = at_ms 2000" and "Date_now_end ev = at_ms 1000"
  shows "long_wait_secs ev = Finite (- 1)"
  by (simp add: long_wait_secs_def of_time_def assms at_ms.rep_eq dsub_def rounding_samples)

lemma counter_at_set_back:
  "counter_at (Finite (- 1)) 0 = Finite (- 1)"
  "counter_at (Finite (- 1)) (Suc 0) = Finite (- (3602879701896397 / 4503599627370496))"
  "counter_at (Finite (- 1)) (Suc (Suc 0)) = Finite (- (1 / 2))"
  "counter_at (Finite (- 1)) (Suc (Suc (Suc 0))) = Finite (- (900719925474099 / 18014398509481984))"
  "counter_at (Finite (- 1)) (Suc (Suc (Suc (Suc 0)))) = Finite (5 / 8)"
  by (simp_all add: rounding_samples)

lemma first_answer:
  assumes "\<not> still_waiting (getTransactionByHash ev 0)"
  shows "\<exists>s x. fetching ev options = Some (s, x) \<and> polls s = 0 \<and> trace s = [Fetch_by_hash] \<and>
     (\<forall>t. getTransactionByHash ev 0 = Inr t \<longrightarrow> x = None \<and> lastTxn s = Some t) \<and>
     (\<forall>e. getTransactionByHash ev 0 = Inl e \<longrightarrow> x = Some e)"
proof -
  obtain s0 x0 where i: "initial_fetch ev = (s0, x0)" by (cases "initial_fetch ev")
  have fr: "polls s0 = 0" "trace s0 = [Fetch_by_hash]"
    using initial_fetch_facts [OF i] by simp_all
  from i have r: "(x0 = None \<longrightarrow> \<not> isPending s0) \<and>
     (\<forall>t. getTransactionByHash ev 0 = Inr t \<longrightarrow> x0 = None \<and> lastTxn s0 = Some t) \<and>
     (\<forall>e. getTransactionByHash ev 0 = Inl e \<longrightarrow> x0 = Some e)"
    unfolding initial_fetch_def
  proof (cases rule: observe_cases)
    case (got t)
    then show ?thesis using assms by simp
  next
    case (api a)
    then show ?thesis using assms by simp
  next
    case (other e)
    then show ?thesis by simp
  qed
  have "fetching ev options = Some (s0, x0)"
    using i r by (cases x0) (simp_all add: fetching_def long_wait_def poll.simps)
  then show ?thesis using fr r by blast
qed

lemma long_poll_answer:
  assumes "still_waiting (getTransactionByHash ev 0)"
    and "\<not> still_waiting (longWaitForTransaction ev)"
  shows "\<exists>s x. fetching ev options = Some (s, x) \<and> polls s = 0 \<and>
     trace s = [Fetch_by_hash, Long_wait] \<and>
     (\<forall>t. longWaitForTransaction ev = Inr t \<longrightarrow> x = None \<and> lastTxn s = Some t) \<and>
     (\<forall>e. longWaitForTransaction ev = Inl e \<longrightarrow> x = Some e)"
proof -
  have "isPending (initial_state\<lparr>trace := [Fetch_by_hash]\<rparr>)" by (simp add: initial_state_def)
  from observe_still_waiting [OF assms(1) this] obtain s0
    where i: "initial_fetch ev = (s0, None)" and p0: "isPending s0"
    unfolding initial_fetch_def by blast
  have f0: "polls s0 = 0" "trace s0 = [Fetch_by_hash]"
    using initial_fetch_facts [OF i] by simp_all
  obtain s' x where o: "observe (longWaitForTransaction ev) (s0\<lparr>trace := trace s0 @ [Long_wait]\<rparr>) = (s', x)"
    by (cases "observe (longWaitForTransaction ev) (s0\<lparr>trace := trace s0 @ [Long_wait]\<rparr>)")
  note fr = observe_frame [OF o]
  from o have r: "(x = None \<longrightarrow> \<not> isPending s') \<and>
     (\<forall>t. longWaitForTransaction ev = Inr t \<longrightarrow> x = None \<and> lastTxn s' = Some t) \<and>
     (\<forall>e. longWaitForTransaction ev = Inl e \<longrightarrow> x = Some e)"
  proof (cases rule: observe_cases)
    case (got t)
    then show ?thesis using assms(2) by simp
  next
    case (api a)
    then show ?thesis using assms(2) by simp
  next
    case (other e)
    then show ?thesis by simp
  qed
  show ?thesis
  proof (cases x)
    case None
    then have "fetching ev options = Some (s'\<lparr>timeElapsed := long_wait_secs ev\<rparr>, None)"
      using i p0 o r by (simp add: fetching_def long_wait_def poll.simps)
    then show ?thesis using None fr f0 r
      by (intro exI [of _ "s'\<lparr>timeElapsed := long_wait_secs ev\<rparr>"] exI [of _ None]) simp
  next
    case (Some e)
    then have "fetching ev options = Some (s', Some e)"
      using i p0 o by (simp add: fetching_def long_wait_def)
    then show ?thesis using Some fr f0 r by (intro exI [of _ s'] exI [of _ "Some e"]) simp
  qed
qed

lemma conclude_committed:
  assumes "lastTxn s = Some t" and "ttype t \<noteq> Pending"
  shows "conclude h timeout check s =
     (if check \<and> \<not> success t
      then Inl (FailedTransactionError (Failed_with_an_error h (vm_status t)) t) else Inr t)"
  using assms by (simp add: conclude_def)

lemma conclude_pending:
  assumes "lastTxn s = Some t" and "ttype t = Pending"
  shows "conclude h timeout check s =
     Inl (WaitForTransactionError (Timed_out_in_pending_state h timeout) (Some t))"
  using assms by (simp add: conclude_def)

lemma fatal_status: "fatal a \<longleftrightarrow> 400 \<le> status a \<and> status a < 500 \<and> status a \<noteq> 404"
  by (auto simp: fatal_def)


lemma timeout_of_cases:
  "timeout_of ev None = DEFAULT_TXN_TIMEOUT_SEC ev"
  "timeout_of ev (Some \<lparr>timeoutSecs = None, checkSuccess = c\<rparr>) = DEFAULT_TXN_TIMEOUT_SEC ev"
  "timeout_of ev (Some \<lparr>timeoutSecs = Some T, checkSuccess = c\<rparr>) = T"
  by (simp_all add: timeout_of_def)

lemma sleep_at_least:
  assumes "dge b (Finite 200)"
  shows "dge (ddiv b (Finite 1000)) (Finite (1 / 5)) \<and> dge (dmul b (Finite (3 / 2))) (Finite 200)"
proof (cases b)
  case (Finite x)
  then have x: "200 \<le> x" using assms by simp
  then have "1 / 5 \<le> x / 1000" by simp
  from to_double_ge_fifth [OF this] have a: "dge (ddiv b (Finite 1000)) (Finite (1 / 5))"
    using Finite by auto
  from dmul_interval [OF x] have "dge (dmul b (Finite (3 / 2))) (Finite 200)"
  proof
    assume "dmul (Finite x) (Finite (3 / 2)) = PosInf"
    then show ?thesis using Finite by simp
  next
    assume "\<exists>y. dmul (Finite x) (Finite (3 / 2)) = Finite y \<and> x * (5 / 4) \<le> y \<and> y < huge"
    then obtain y where y: "dmul (Finite x) (Finite (3 / 2)) = Finite y" "x * (5 / 4) \<le> y" by blast
    have "200 \<le> y" using x y(2) by linarith
    then show ?thesis using Finite y(1) by simp
  qed
  then show ?thesis using a by simp
qed (use assms in simp_all)

lemma interval_at_least: "dge (interval_at k) (Finite 200)"
  by (induction k) (simp_all add: sleep_at_least)

lemmas demo_defs = never_found_def always_pending_def executed_failed_def rejected_def
  unreachable_def demo_env_def waiting_def not_found_def bad_request_def pending_txn_def
  failed_txn_def committed_txn_def unavailable_def flaky_def flaky_then_rejected_def
  foreign_404_def clock_set_back_def fourth_poll_def nearly_a_second_def

lemma long_wait_secs_demo: "long_wait_secs (demo_env f l) = Finite (1 / 4)"
  by (rule long_wait_secs_quarter) (simp_all add: demo_env_def)



lemma fetching_never_found:
  "fetching never_found (waiting (Finite 0)) =
     Some (initial_state\<lparr>trace := [Fetch_by_hash, Long_wait], lastError := Some not_found,
             timeElapsed := Finite (1 / 4)\<rparr>, None)"
  apply (simp add: fetching_def initial_fetch_def observe_def long_wait_def initial_state_def
      handleAPIError_def timeout_of_def demo_defs long_wait_secs_quarter)
  apply (subst poll.simps)
  apply (simp add: poll_body_def)
  done

text \<open>With \<open>NaN\<close> for a timeout and a transaction that stays pending the loop never ends.\<close>

lemma poll_NaN_aux:
  "poll ev timeout s = Some r \<Longrightarrow>
     \<not> (isPending s \<and> timeout = NaN \<and> (\<forall>k. still_waiting (getTransactionByHash ev k)))"
proof (induct rule: poll.raw_induct [rotated 1, consumes 1])
  case (1 poll' ev timeout s r)
  show ?case
  proof
    assume a: "isPending s \<and> timeout = NaN \<and> (\<forall>k. still_waiting (getTransactionByHash ev k))"
    then have t: "\<not> dge (timeElapsed s) timeout" by (cases "timeElapsed s") simp_all
    have "isPending (s\<lparr>polls := Suc (polls s), trace := trace s @ [Fetch_by_hash]\<rparr>)"
      using a by simp
    moreover have "still_waiting (getTransactionByHash ev (Suc (polls s)))" using a by simp
    ultimately obtain s' where o: "observe (getTransactionByHash ev (Suc (polls s)))
        (s\<lparr>polls := Suc (polls s), trace := trace s @ [Fetch_by_hash]\<rparr>) = (s', None)"
      and p: "isPending s'"
      using observe_still_waiting by blast
    have "poll_body ev timeout s = Inr (back_off s')" using t o p by (simp add: poll_body_def)
    then have "poll' ev timeout (back_off s') = Some r" using 1(2) a by simp
    from 1(1) [OF this] show False using a p by (simp add: back_off_def)
  qed
qed

lemma NaN_timeout_never_returns:
  "waitForTransaction always_pending h (waiting NaN) = None"
proof -
  have a: "still_waiting (getTransactionByHash always_pending 0)"
    "still_waiting (longWaitForTransaction always_pending)"
    by (simp_all add: demo_defs)
  from fetching_head [OF a, of 0 "waiting NaN"] obtain s
    where s: "fetching always_pending (waiting NaN) =
        poll always_pending (timeout_of always_pending (waiting NaN)) s" "isPending s"
    by auto
  have "poll always_pending NaN s = None"
  proof (cases "poll always_pending NaN s")
    case (Some r)
    from poll_NaN_aux [OF this] show ?thesis using s(2) by (simp add: demo_defs)
  qed simp
  then have "fetching always_pending (waiting NaN) = None"
    using s(1) by (simp add: timeout_of_def waiting_def)
  then show ?thesis by (simp add: waitForTransaction_def)
qed

subsection \<open>Error messages and serialization\<close>

lemma mentions_self: "mentions w w"
  by (cases w) simp_all

lemma mentions_suffix: "mentions w (p @ w)"
  by (induction p) (simp_all add: mentions_self)

lemma length_le_bytes: "length (le_bytes k n) = k"
  by (induction k arbitrary: n) simp_all

lemma le_nat_le_bytes: "le_nat (le_bytes k n) = n mod 256 ^ k"
proof (induction k arbitrary: n)
  case 0
  show ?case by simp
next
  case (Suc k)
  have "le_nat (le_bytes (Suc k) n) = n mod 256 + 256 * ((n div 256) mod 256 ^ k)"
    using Suc.IH [of "n div 256"] by (simp add: unat_of_nat)
  also have "\<dots> = n mod 256 ^ Suc k"
    by (simp add: mod_mult2_eq)
  finally show ?case .
qed

lemma read_exact_append: "read_exact (length b) (b @ rest) = Some (b, rest)"
  by (simp add: read_exact_def)

lemma read_uint_le_bytes: "n < 256 ^ k \<Longrightarrow> read_uint k (le_bytes k n @ rest) = Some (n, rest)"
  using read_exact_append [of "le_bytes k n" rest]
  by (simp add: read_uint_def length_le_bytes le_nat_le_bytes)

lemma unat_less_bytes:
  fixes w :: "'a::len word"
  assumes "LENGTH('a) = 8 * k"
  shows "unat w < 256 ^ k"
proof -
  have "unat w < 2 ^ LENGTH('a)" by simp
  also have "(2::nat) ^ LENGTH('a) = 256 ^ k"
    using assms by (simp add: power_mult)
  finally show ?thesis .
qed

lemma read_word:
  fixes w :: "'a::len word"
  assumes "LENGTH('a) = 8 * k"
  shows "map_reader (\<lambda>n. f (of_nat n :: 'a word)) (read_uint k) (le_bytes k (unat w) @ rest) = Some (f w, rest)"
  using read_uint_le_bytes [OF unat_less_bytes [OF assms, of w], of rest]
  by (simp add: map_reader_def)

lemma uleb128_low_byte:
  assumes "n < 128"
  shows "(of_nat n :: 8 word) < 128" "unat (of_nat n :: 8 word) = n" "(of_nat n :: 8 word) = 0 \<longleftrightarrow> n = 0"
proof -
  have "n mod 256 = n" using assms by simp
  then show u: "unat (of_nat n :: 8 word) = n" by (simp add: unat_of_nat)
  show "(of_nat n :: 8 word) < 128" using assms u by (simp add: word_less_nat_alt)
  show "(of_nat n :: 8 word) = 0 \<longleftrightarrow> n = 0"
  proof
    assume "(of_nat n :: 8 word) = 0"
    then have "unat (of_nat n :: 8 word) = 0" by simp
    then show "n = 0" using u by simp
  next
    assume "n = 0"
    then show "(of_nat n :: 8 word) = 0" by simp
  qed
qed

lemma uleb128_high_byte:
  "\<not> (of_nat (128 + n mod 128) :: 8 word) < 128"
  "unat (of_nat (128 + n mod 128) :: 8 word) = 128 + n mod 128"
proof -
  have "128 + n mod 128 < (256::nat)" by simp
  then have m: "(128 + n mod 128) mod 256 = 128 + n mod 128" by (rule mod_less)
  have "unat (of_nat (128 + n mod 128) :: 8 word) = (128 + n mod 128) mod 2 ^ LENGTH(8)"
    by (rule unat_of_nat)
  also have "\<dots> = 128 + n mod 128" using m by simp
  finally show u: "unat (of_nat (128 + n mod 128) :: 8 word) = 128 + n mod 128" .
  have "unat (128 :: 8 word) = 128" by simp
  then show "\<not> (of_nat (128 + n mod 128) :: 8 word) < 128"
    unfolding word_less_nat_alt u by linarith
qed

lemma uleb128_small: "n < 128 \<Longrightarrow> uleb128 n = [of_nat n]"
  by (subst uleb128.simps) simp

lemma uleb128_large:
  assumes "\<not> n < 128" and "b = of_nat (128 + n mod 128)"
  shows "uleb128 n = b # uleb128 (n div 128)"
  unfolding assms(2) using assms(1) by (subst uleb128.simps) (simp only: if_False)

lemma uleb128_digits_uleb128:
  "first \<or> 0 < n \<Longrightarrow> uleb128_digits strict first (uleb128 n @ rest) = Some (n, rest)"
proof (induction n arbitrary: first rule: uleb128.induct)
  case (1 n)
  show ?case
  proof (cases "n < 128")
    case True
    then show ?thesis using "1.prems" uleb128_low_byte [OF True]
      by (simp add: uleb128_small)
  next
    case False
    define b :: "8 word" where "b = of_nat (128 + n mod 128)"
    have hb: "\<not> b < 128" "unat b = 128 + n mod 128"
      using uleb128_high_byte [of n] unfolding b_def by blast+
    have "0 < n div 128" using False by (simp add: div_greater_zero_iff)
    then have ih: "uleb128_digits strict False (uleb128 (n div 128) @ rest) = Some (n div 128, rest)"
      using "1.IH" [OF False, of False] by simp
    show ?thesis
      by (simp add: uleb128_large [OF False b_def] hb ih)
  qed
qed

lemma read_uleb128_uleb128:
  "n \<le> max_length cfg \<Longrightarrow> read_uleb128 cfg (uleb128 n @ rest) = Some (n, rest)"
  by (simp add: read_uleb128_def uleb128_digits_uleb128)

lemma round_trip_all:
  "has_type cfg t v \<longrightarrow> (\<forall>rest. deserialize cfg t (serialize v @ rest) = Some (v, rest))"
  "all_of_type cfg t vs \<longrightarrow>
      (\<forall>rest. read_all (replicate (length vs) (deserialize cfg t)) (concat (map serialize vs) @ rest)
         = Some (vs, rest))"
  "have_types cfg ts vs' \<longrightarrow>
      (\<forall>rest. read_all (map (deserialize cfg) ts) (concat (map serialize vs') @ rest) = Some (vs', rest))"
proof (induction cfg t v and cfg t vs and cfg ts vs' rule: has_type_all_of_type_have_types.induct)
  case (1 cfg t w)
  show ?case using read_word [where 'a = 8 and k = 1 and f = VU8] by simp
next
  case (2 cfg t w)
  show ?case using read_word [where 'a = 16 and k = 2 and f = VU16] by simp
next
  case (3 cfg t w)
  show ?case using read_word [where 'a = 32 and k = 4 and f = VU32] by simp
next
  case (4 cfg t w)
  show ?case using read_word [where 'a = 64 and k = 8 and f = VU64] by simp
next
  case (5 cfg t w)
  show ?case using read_word [where 'a = 128 and k = 16 and f = VU128] by simp
next
  case (6 cfg t w)
  show ?case using read_word [where 'a = 256 and k = 32 and f = VU256] by simp
next
  case (7 cfg t n)
  show ?case by (simp add: map_reader_def read_uleb128_uleb128)
next
  case (8 cfg t b)
  show ?case by (simp add: map_reader_def read_uleb128_uleb128 read_exact_append)
next
  case (9 cfg t b)
  show ?case by (auto simp: map_reader_def read_exact_append)
next
  case (10 cfg t vs)
  then show ?case
    by (auto simp: map_reader_def read_uleb128_uleb128 split: bcs_type.splits)
next
  case (11 cfg t)
  show ?case by (auto split: bcs_type.splits)
next
  case (12 cfg t v)
  then show ?case by (auto simp: map_reader_def split: bcs_type.splits)
next
  case (13 cfg t vs)
  then show ?case by (auto simp: map_reader_def split: bcs_type.splits)
qed simp_all

section \<open>Properties of \<open>waitForTransaction\<close> and \<open>isTransactionPending\<close>\<close>

text \<open>
  C2. Classification of API errors during the fetch attempts. An API error with status 404 or
  5xx is an answer after which the code goes on waiting; one with a 4xx status other than 404
  is not. A 4xx other than 404 in answer to the first fetch, to the long poll, or to a polling
  request is the result of \<open>waitForTransaction\<close>, unchanged, and no request follows it.
  When the first fetch, the long poll and the first \<open>n\<close> polling requests are answered by
  a pending transaction or by such a 404 or 5xx, and time is left, polling goes on: request
  \<open>n + 1\<close> is issued, and a transaction that is no longer pending in answer to it ends
  the polling and decides the result.
\<close>

theorem waitForTransaction_error_classification:
  "(\<forall>a. status a = 404 \<or> (500 \<le> status a \<and> status a < 600) \<longrightarrow>
       still_waiting (Inl (ApiError a))) \<and>
   (\<forall>a. 400 \<le> status a \<and> status a < 500 \<and> status a \<noteq> 404 \<longrightarrow>
       \<not> still_waiting (Inl (ApiError a))) \<and>
   (\<forall>a. getTransactionByHash ev 0 = Inl (ApiError a) \<and>
        400 \<le> status a \<and> status a < 500 \<and> status a \<noteq> 404 \<longrightarrow>
      waitForTransaction ev h options = Some (Inl (ApiError a)) \<and>
      (\<exists>s. fetching ev options = Some (s, Some (ApiError a)) \<and> polls s = 0 \<and>
           trace s = [Fetch_by_hash])) \<and>
   (\<forall>a. still_waiting (getTransactionByHash ev 0) \<and>
        longWaitForTransaction ev = Inl (ApiError a) \<and>
        400 \<le> status a \<and> status a < 500 \<and> status a \<noteq> 404 \<longrightarrow>
      waitForTransaction ev h options = Some (Inl (ApiError a)) \<and>
      (\<exists>s. fetching ev options = Some (s, Some (ApiError a)) \<and> polls s = 0 \<and>
           trace s = [Fetch_by_hash, Long_wait])) \<and>
   (\<forall>n. still_waiting (getTransactionByHash ev 0) \<and>
        still_waiting (longWaitForTransaction ev) \<and>
        (\<forall>k<n. still_waiting (getTransactionByHash ev (Suc k))) \<and>
        (\<forall>k\<le>n. \<not> dge (counter_at (long_wait_secs ev) k) (timeout_of ev options)) \<longrightarrow>
      (\<forall>a. getTransactionByHash ev (Suc n) = Inl (ApiError a) \<and>
           400 \<le> status a \<and> status a < 500 \<and> status a \<noteq> 404 \<longrightarrow>
         waitForTransaction ev h options = Some (Inl (ApiError a)) \<and>
         (\<exists>s. fetching ev options = Some (s, Some (ApiError a)) \<and> polls s = Suc n \<and>
              trace s = [Fetch_by_hash, Long_wait] @ poll_events n @ [Fetch_by_hash])) \<and>
      (\<forall>t. getTransactionByHash ev (Suc n) = Inr t \<and> ttype t \<noteq> Pending \<longrightarrow>
         waitForTransaction ev h options =
           Some (if checkSuccess_of options \<and> \<not> success t
                 then Inl (FailedTransactionError (Failed_with_an_error h (vm_status t)) t)
                 else Inr t) \<and>
         (\<exists>s. fetching ev options = Some (s, None) \<and> polls s = Suc n \<and>
              lastTxn s = Some t \<and>
              trace s = [Fetch_by_hash, Long_wait] @ poll_events n @ [Fetch_by_hash])))"
proof -
  have retried: "still_waiting (Inl (ApiError a))"
    if "status a = 404 \<or> (500 \<le> status a \<and> status a < 600)" for a
    using that by (auto simp: fatal_def)
  have refused: "\<not> still_waiting (Inl (ApiError a))"
    if "400 \<le> status a \<and> status a < 500 \<and> status a \<noteq> 404" for a
    using that by (simp add: fatal_def)
  have first: "waitForTransaction ev h options = Some (Inl (ApiError a)) \<and>
      (\<exists>s. fetching ev options = Some (s, Some (ApiError a)) \<and> polls s = 0 \<and>
           trace s = [Fetch_by_hash])"
    if g: "getTransactionByHash ev 0 = Inl (ApiError a) \<and>
        400 \<le> status a \<and> status a < 500 \<and> status a \<noteq> 404" for a
  proof -
    have "\<not> still_waiting (getTransactionByHash ev 0)" using g refused by simp
    from first_answer [OF this, of options] obtain s
      where s: "fetching ev options = Some (s, Some (ApiError a))" "polls s = 0"
        "trace s = [Fetch_by_hash]"
      using g by auto
    show ?thesis using fetching_propagates [OF s(1), of h] s by auto
  qed
  have long: "waitForTransaction ev h options = Some (Inl (ApiError a)) \<and>
      (\<exists>s. fetching ev options = Some (s, Some (ApiError a)) \<and> polls s = 0 \<and>
           trace s = [Fetch_by_hash, Long_wait])"
    if g: "still_waiting (getTransactionByHash ev 0) \<and>
        longWaitForTransaction ev = Inl (ApiError a) \<and>
        400 \<le> status a \<and> status a < 500 \<and> status a \<noteq> 404" for a
  proof -
    have "still_waiting (getTransactionByHash ev 0)"
      "\<not> still_waiting (longWaitForTransaction ev)" using g refused by simp_all
    from long_poll_answer [OF this, of options] obtain s
      where s: "fetching ev options = Some (s, Some (ApiError a))" "polls s = 0"
        "trace s = [Fetch_by_hash, Long_wait]"
      using g by auto
    show ?thesis using fetching_propagates [OF s(1), of h] s by auto
  qed
  have polling: "(\<forall>a. getTransactionByHash ev (Suc n) = Inl (ApiError a) \<and>
           400 \<le> status a \<and> status a < 500 \<and> status a \<noteq> 404 \<longrightarrow>
         waitForTransaction ev h options = Some (Inl (ApiError a)) \<and>
         (\<exists>s. fetching ev options = Some (s, Some (ApiError a)) \<and> polls s = Suc n \<and>
              trace s = [Fetch_by_hash, Long_wait] @ poll_events n @ [Fetch_by_hash])) \<and>
      (\<forall>t. getTransactionByHash ev (Suc n) = Inr t \<and> ttype t \<noteq> Pending \<longrightarrow>
         waitForTransaction ev h options =
           Some (if checkSuccess_of options \<and> \<not> success t
                 then Inl (FailedTransactionError (Failed_with_an_error h (vm_status t)) t)
                 else Inr t) \<and>
         (\<exists>s. fetching ev options = Some (s, None) \<and> polls s = Suc n \<and>
              lastTxn s = Some t \<and>
              trace s = [Fetch_by_hash, Long_wait] @ poll_events n @ [Fetch_by_hash]))"
    if sc: "still_waiting (getTransactionByHash ev 0) \<and>
        still_waiting (longWaitForTransaction ev) \<and>
        (\<forall>k<n. still_waiting (getTransactionByHash ev (Suc k))) \<and>
        (\<forall>k\<le>n. \<not> dge (counter_at (long_wait_secs ev) k) (timeout_of ev options))" for n
  proof (intro conjI allI impI)
    fix a
    assume a: "getTransactionByHash ev (Suc n) = Inl (ApiError a) \<and>
           400 \<le> status a \<and> status a < 500 \<and> status a \<noteq> 404"
    then have "\<not> still_waiting (getTransactionByHash ev (Suc n))" using refused by simp
    from scenario_answer [OF _ _ _ _ _ this, of options] sc obtain s
      where s: "fetching ev options = Some (s, Some (ApiError a))" "polls s = Suc n"
        "trace s = [Fetch_by_hash, Long_wait] @ poll_events n @ [Fetch_by_hash]"
      using a by auto
    show "waitForTransaction ev h options = Some (Inl (ApiError a))"
      using fetching_propagates [OF s(1), of h] by simp
    show "\<exists>s. fetching ev options = Some (s, Some (ApiError a)) \<and> polls s = Suc n \<and>
              trace s = [Fetch_by_hash, Long_wait] @ poll_events n @ [Fetch_by_hash]"
      using s by blast
  next
    fix t
    assume t: "getTransactionByHash ev (Suc n) = Inr t \<and> ttype t \<noteq> Pending"
    then have "\<not> still_waiting (getTransactionByHash ev (Suc n))" by simp
    from scenario_answer [OF _ _ _ _ _ this, of options] sc obtain s
      where s: "fetching ev options = Some (s, None)" "polls s = Suc n" "lastTxn s = Some t"
        "trace s = [Fetch_by_hash, Long_wait] @ poll_events n @ [Fetch_by_hash]"
      using t by auto
    show "waitForTransaction ev h options =
           Some (if checkSuccess_of options \<and> \<not> success t
                 then Inl (FailedTransactionError (Failed_with_an_error h (vm_status t)) t)
                 else Inr t)"
      using fetching_propagates [OF s(1), of h] conclude_committed [OF s(3)] t by simp
    show "\<exists>s. fetching ev options = Some (s, None) \<and> polls s = Suc n \<and>
              lastTxn s = Some t \<and>
              trace s = [Fetch_by_hash, Long_wait] @ poll_events n @ [Fetch_by_hash]"
      using s by blast
  qed
  have c1: "\<forall>a. status a = 404 \<or> (500 \<le> status a \<and> status a < 600) \<longrightarrow>
       still_waiting (Inl (ApiError a))"
    using retried by blast
  have c2: "\<forall>a. 400 \<le> status a \<and> status a < 500 \<and> status a \<noteq> 404 \<longrightarrow>
       \<not> still_waiting (Inl (ApiError a))"
    using refused by blast
  show ?thesis
    apply (intro conjI)
        apply (rule c1)
       apply (rule c2)
      apply (intro allI impI, erule first)
     apply (intro allI impI, erule long)
    apply (intro allI impI, erule polling)
    done
qed

theorem waitForTransaction_error_classification_witness:
  "waitForTransaction flaky ''0xabc'' None = Some (Inr committed_txn) \<and>
   waitForTransaction flaky_then_rejected ''0xabc'' None = Some (Inl (ApiError bad_request)) \<and>
   waitForTransaction rejected ''0xabc'' None = Some (Inl (ApiError bad_request))"
proof -
  have a: "waitForTransaction flaky ''0xabc'' None = Some (Inr committed_txn)"
    using waitForTransaction_error_classification [of flaky "''0xabc''" None,
        THEN conjunct2, THEN conjunct2, THEN conjunct2, THEN conjunct2, rule_format,
        of "Suc 0", THEN conjunct2, rule_format, of committed_txn, THEN conjunct1]
    by (simp add: long_wait_secs_quarter le_Suc_eq rounding_samples fatal_def timeout_of_def
        checkSuccess_of_def demo_defs)
  have b: "waitForTransaction flaky_then_rejected ''0xabc'' None = Some (Inl (ApiError bad_request))"
    using waitForTransaction_error_classification [of flaky_then_rejected "''0xabc''" None,
        THEN conjunct2, THEN conjunct2, THEN conjunct2, THEN conjunct2, rule_format,
        of "Suc 0", THEN conjunct1, rule_format, of bad_request, THEN conjunct1]
    by (simp add: long_wait_secs_quarter le_Suc_eq rounding_samples fatal_def timeout_of_def
        demo_defs)
  have c: "waitForTransaction rejected ''0xabc'' None = Some (Inl (ApiError bad_request))"
    using waitForTransaction_error_classification [of rejected "''0xabc''" None,
        THEN conjunct2, THEN conjunct2, THEN conjunct1, rule_format, of bad_request,
        THEN conjunct1]
    by (simp add: demo_defs)
  show ?thesis using a b c by simp
qed





text \<open>
  C5, as the code has it. \<open>handleAPIError\<close> stores every \<open>CedraApiError\<close> in
  \<open>lastError\<close>, whatever its status, before deciding whether to rethrow it; a thrown value
  that is not a \<open>CedraApiError\<close> is rethrown at once and is not stored. When fetching ends
  without a throw and no transaction was ever fetched, the counter has reached the timeout,
  \<open>lastError\<close> holds the error answered to the latest request, and that error is the
  result, not a \<open>WaitForTransactionError\<close>.
\<close>

theorem waitForTransaction_last_error_surfaced:
  "(\<forall>a s. lastError (fst (handleAPIError (ApiError a) s)) = Some a) \<and>
   (\<forall>e s. (\<forall>a. e \<noteq> ApiError a) \<longrightarrow> handleAPIError e s = (s, Some e)) \<and>
   (\<forall>s. fetching ev options = Some (s, None) \<longrightarrow> lastTxn s = None \<longrightarrow>
      dge (timeElapsed s) (timeout_of ev options) \<and>
      (\<exists>a. lastError s = Some a \<and> last_answer ev (polls s) = Inl (ApiError a) \<and>
           waitForTransaction ev h options = Some (Inl (ApiError a))))"
proof (intro conjI allI impI)
  fix s
  assume f: "fetching ev options = Some (s, None)" and n: "lastTxn s = None"
  have al: "after_loop ev (timeout_of ev options) s None"
    using f by (cases rule: fetching_cases) (use n in auto)
  have "isPending s" using after_loop_pending_shape [OF al] n by simp
  then show "dge (timeElapsed s) (timeout_of ev options)"
    using after_loop_timeout [OF al] by blast
  show "\<exists>a. lastError s = Some a \<and> last_answer ev (polls s) = Inl (ApiError a) \<and>
           waitForTransaction ev h options = Some (Inl (ApiError a))"
    using after_loop_last_error [OF al n] n
    by (auto simp: fetching_propagates [OF f] conclude_def)
qed (simp_all add: handleAPIError_ApiError handleAPIError_other)

theorem waitForTransaction_last_error_surfaced_witness:
  "waitForTransaction never_found ''0xabc'' (waiting (Finite 0)) = Some (Inl (ApiError not_found))"
  using waitForTransaction_last_error_surfaced [of never_found "waiting (Finite 0)" "''0xabc''"]
    fetching_never_found
  by (auto simp: initial_state_def)

text \<open>The claim as stated fails for a thrown value that is not a \<open>CedraApiError\<close>: it is
  not retried and \<open>lastError\<close> stays undefined.\<close>

theorem unexpected_error_is_not_remembered:
  "fetching unreachable None =
     Some (initial_state\<lparr>trace := [Fetch_by_hash]\<rparr>, Some (OtherError None ''fetch failed'')) \<and>
   lastError (initial_state\<lparr>trace := [Fetch_by_hash]\<rparr>) = None"
  by (simp add: fetching_def initial_fetch_def observe_def initial_state_def
      handleAPIError_def demo_defs)

text \<open>
  C9, as the code has it. For every timeout other than \<open>NaN\<close> (every number, negative or
  not, and both infinities), given by the caller or by default, \<open>waitForTransaction\<close>
  returns or throws, whatever the node answers, after at most 4098 polling requests. An iteration that goes round again was
  entered with the counter below the timeout; it adds \<open>backoffIntervalMs / 1000\<close> to the
  counter, which is at least 0.2 since the interval is at least 200, and multiplies the
  interval by 1.5, all in double arithmetic. The loop is left as soon as the counter has
  reached the timeout. So the number of polling requests is at most every \<open>n\<close> for which the
  counter after \<open>n\<close> sleeps, started at the seconds measured around the long poll, has
  reached the timeout.
\<close>

theorem waitForTransaction_terminates:
  assumes "timeout_of ev options \<noteq> NaN"
  shows "(\<exists>r. waitForTransaction ev h options = Some r) \<and>
     (\<exists>s x. fetching ev options = Some (s, x) \<and> polls s \<le> 4098 \<and>
        (\<forall>n. dge (counter_at (long_wait_secs ev) n) (timeout_of ev options) \<longrightarrow>
             polls s \<le> n)) \<and>
     (\<forall>s s'. poll_body ev (timeout_of ev options) s = Inr s' \<longrightarrow>
        \<not> dge (timeElapsed s) (timeout_of ev options) \<and>
        timeElapsed s' = dadd (timeElapsed s) (ddiv (backoffIntervalMs s) (Finite 1000)) \<and>
        backoffIntervalMs s' = dmul (backoffIntervalMs s) (Finite (3 / 2)) \<and>
        (dge (backoffIntervalMs s) (Finite 200) \<longrightarrow>
           dge (ddiv (backoffIntervalMs s) (Finite 1000)) (Finite (1 / 5)) \<and>
           dge (backoffIntervalMs s') (Finite 200))) \<and>
     (\<forall>s. isPending s \<and> dge (timeElapsed s) (timeout_of ev options) \<longrightarrow>
        poll ev (timeout_of ev options) s = Some (s, None)) \<and>
     (\<forall>k. dge (interval_at k) (Finite 200)) \<and>
     (\<forall>T c. timeout_of ev (Some \<lparr>timeoutSecs = Some T, checkSuccess = c\<rparr>) = T)"
proof -
  obtain s x where f: "fetching ev options = Some (s, x)" and b: "polls s \<le> 4098"
    using fetching_total [OF assms] by blast
  have total: "\<exists>r. waitForTransaction ev h options = Some r"
    using fetching_propagates [OF f, of h] by simp
  have "polls s \<le> n"
    if "dge (counter_at (long_wait_secs ev) n) (timeout_of ev options)" for n
    using f
  proof (cases rule: fetching_cases)
    case looped
    show ?thesis using after_loop_started_in_time [OF looped] that by (meson not_le)
  qed simp_all
  then have bound: "\<exists>s x. fetching ev options = Some (s, x) \<and> polls s \<le> 4098 \<and>
        (\<forall>n. dge (counter_at (long_wait_secs ev) n) (timeout_of ev options) \<longrightarrow>
             polls s \<le> n)"
    using f b by blast
  have step: "\<not> dge (timeElapsed s) (timeout_of ev options) \<and>
        timeElapsed s' = dadd (timeElapsed s) (ddiv (backoffIntervalMs s) (Finite 1000)) \<and>
        backoffIntervalMs s' = dmul (backoffIntervalMs s) (Finite (3 / 2)) \<and>
        (dge (backoffIntervalMs s) (Finite 200) \<longrightarrow>
           dge (ddiv (backoffIntervalMs s) (Finite 1000)) (Finite (1 / 5)) \<and>
           dge (backoffIntervalMs s') (Finite 200))"
    if "poll_body ev (timeout_of ev options) s = Inr s'" for s s'
    using poll_body_continue [OF that] sleep_at_least [of "backoffIntervalMs s"] by simp
  have leave: "poll ev (timeout_of ev options) s = Some (s, None)"
    if "isPending s \<and> dge (timeElapsed s) (timeout_of ev options)" for s
    using that by (subst poll.simps) (simp add: poll_body_def)
  show ?thesis
    apply (intro conjI)
         apply (rule total)
        apply (rule bound)
       apply (intro allI impI, erule step)
      apply (intro allI impI, erule leave)
     apply (rule allI, rule interval_at_least)
    apply (intro allI, rule timeout_of_cases(3))
    done
qed

theorem waitForTransaction_terminates_witness:
  "(\<exists>r. waitForTransaction clock_set_back ''0xabc'' (waiting (Finite (1 / 4))) = Some r) \<and>
   (\<exists>s x. fetching clock_set_back (waiting (Finite (1 / 4))) = Some (s, x) \<and> polls s \<le> 4) \<and>
   (\<exists>r. waitForTransaction always_pending ''0xabc'' (waiting PosInf) = Some r)"
proof -
  have d: "long_wait_secs clock_set_back = Finite (- 1)"
    by (rule long_wait_secs_set_back) (simp_all add: clock_set_back_def)
  have T: "timeout_of clock_set_back (waiting (Finite (1 / 4))) = Finite (1 / 4)"
    "timeout_of always_pending (waiting PosInf) = PosInf"
    by (simp_all add: timeout_of_def waiting_def)
  have a: "timeout_of clock_set_back (waiting (Finite (1 / 4))) \<noteq> NaN"
    "timeout_of always_pending (waiting PosInf) \<noteq> NaN"
    unfolding T by simp_all
  have b: "dge (counter_at (long_wait_secs clock_set_back) (Suc (Suc (Suc (Suc 0)))))
      (timeout_of clock_set_back (waiting (Finite (1 / 4))))"
    unfolding d T by (simp add: rounding_samples)
  have n: "Suc (Suc (Suc (Suc 0))) = 4" by simp
  show ?thesis
    using waitForTransaction_terminates [OF a(1), of "''0xabc''"]
      waitForTransaction_terminates [OF a(2), of "''0xabc''"] b
    unfolding n by blast
qed

text \<open>The claim as stated fails when the clock is set back during the long poll: the
  counter then starts below zero. With a timeout of 0.25 seconds, which 0.2 * (1.5^2 - 1)
  / 0.5 reaches, four polling requests are made.\<close>

theorem clock_set_back_exceeds_bound:
  "map_option (polls \<circ> fst) (fetching clock_set_back (waiting (Finite (1 / 4)))) = Some 4 \<and>
   dge (Finite (1 / 4)) (Finite 0) \<and>
   (1 / 4 :: rat) \<le> (1 / 5) * ((3 / 2) ^ 2 - 1) / (1 / 2) \<and> \<not> (4 :: nat) \<le> 2"
proof -
  have d: "long_wait_secs clock_set_back = Finite (- 1)"
    by (rule long_wait_secs_set_back) (simp_all add: clock_set_back_def)
  have T: "timeout_of clock_set_back (waiting (Finite (1 / 4))) = Finite (1 / 4)"
    by (simp add: timeout_of_def waiting_def)
  have a: "still_waiting (getTransactionByHash clock_set_back 0)"
    "still_waiting (longWaitForTransaction clock_set_back)"
    "\<forall>k<Suc (Suc (Suc (Suc 0))). still_waiting (getTransactionByHash clock_set_back (Suc k))"
    by (simp_all add: fatal_def demo_defs)
  have b: "\<forall>k<Suc (Suc (Suc (Suc 0))). \<not> dge (counter_at (long_wait_secs clock_set_back) k)
      (timeout_of clock_set_back (waiting (Finite (1 / 4))))"
    "dge (counter_at (long_wait_secs clock_set_back) (Suc (Suc (Suc (Suc 0)))))
      (timeout_of clock_set_back (waiting (Finite (1 / 4))))"
    unfolding d T by (simp_all add: less_Suc_eq rounding_samples)
  have "\<exists>s. fetching clock_set_back (waiting (Finite (1 / 4))) = Some (s, None) \<and> isPending s \<and>
     polls s = Suc (Suc (Suc (Suc 0)))"
    using scenario_timeout [OF a b] by blast
  then have "map_option (polls \<circ> fst) (fetching clock_set_back (waiting (Finite (1 / 4)))) = Some 4"
    by auto
  then show ?thesis by (simp add: power_divide)
qed

text \<open>
  C10, as the code has it. \<open>isTransactionPending\<close> answers whether the fetched transaction
  is pending. When the fetch throws, it tests the \<open>status\<close> property of whatever was
  thrown: a value with status 404 gives true, whether or not it is a \<open>CedraApiError\<close>, and
  any other thrown value is rethrown unchanged.
\<close>

theorem isTransactionPending_cases:
  "(\<forall>t. getTransactionByHash ev 0 = Inr t \<longrightarrow> isTransactionPending ev = Inr (ttype t = Pending)) \<and>
   (\<forall>e. getTransactionByHash ev 0 = Inl e \<and> status_of e = Some 404 \<longrightarrow>
        isTransactionPending ev = Inr True) \<and>
   (\<forall>e. getTransactionByHash ev 0 = Inl e \<and> status_of e \<noteq> Some 404 \<longrightarrow>
        isTransactionPending ev = Inl e) \<and>
   (\<forall>a. status_of (ApiError a) = Some (status a)) \<and>
   (\<forall>st d. status_of (OtherError st d) = st)"
  by (simp add: isTransactionPending_def)

theorem isTransactionPending_cases_witness:
  "isTransactionPending always_pending = Inr True \<and>
   isTransactionPending executed_failed = Inr False \<and>
   isTransactionPending never_found = Inr True \<and>
   isTransactionPending rejected = Inl (ApiError bad_request)"
  using isTransactionPending_cases [of always_pending] isTransactionPending_cases [of executed_failed]
    isTransactionPending_cases [of never_found] isTransactionPending_cases [of rejected]
  by (simp add: demo_defs)

text \<open>The claim as stated fails for a fetch failure that is not an API error but carries the
  status 404: it does not propagate, the answer is true.\<close>

theorem foreign_404_is_reported_pending:
  "getTransactionByHash foreign_404 0 = Inl (OtherError (Some 404) ''Not Found'') \<and>
   isTransactionPending foreign_404 = Inr True"
  by (simp add: isTransactionPending_def foreign_404_def demo_env_def)

section \<open>Properties of \<open>SingleKeyAccount\<close>\<close>




text \<open>
  C7. \<open>signTransaction(t)\<close> is \<open>sign\<close> applied to the signing message of \<open>t\<close>, and
  \<open>signTransactionWithAuthenticator(t)\<close> is the single-key authenticator made of the
  account's public key and exactly that signature.
\<close>

theorem signTransaction_signs_signing_message:
  "signTransaction c acct t = sign c acct (HexBytes (generateSigningMessageForTransaction c t)) \<and>
   signTransactionWithAuthenticator c acct t =
     AccountAuthenticatorSingleKey (publicKey acct)
       (sign c acct (HexBytes (generateSigningMessageForTransaction c t)))"
  by (simp add: signTransaction_def signTransactionWithAuthenticator_def)

text \<open>
  C8, as the code has it. For every scheme other than \<open>Ed25519\<close> and
  \<open>Secp256k1Ecdsa\<close>, \<open>generate\<close> and \<open>fromDerivationPath\<close> make no key-producing call
  and throw \<open>Unsupported signature scheme\<close> followed by the scheme requested: the message
  names the offending scheme.
\<close>

theorem unsupported_scheme_rejected:
  assumes "scheme \<noteq> Ed25519" and "scheme \<noteq> Secp256k1Ecdsa"
  shows "\<exists>r. scheme = Unlisted r \<and>
     generate c (Some scheme) entropy = ([], Inl (Error (''Unsupported signature scheme '' @ r))) \<and>
     fromDerivationPath c (Some scheme) path mnemonic =
       ([], Inl (Error (''Unsupported signature scheme '' @ r))) \<and>
     mentions r (''Unsupported signature scheme '' @ r)"
  using assms mentions_suffix [of _ "''Unsupported signature scheme ''"]
  by (cases scheme) (simp_all add: generate_def fromDerivationPath_def)

theorem unsupported_scheme_rejected_witness:
  "generate demo (Some (Unlisted ''1'')) [] = ([], Inl (Error ''Unsupported signature scheme 1'')) \<and>
   fromDerivationPath demo (Some (Unlisted ''1'')) ''m/44'' ''abandon'' =
     ([], Inl (Error ''Unsupported signature scheme 1''))"
  using unsupported_scheme_rejected [of "Unlisted ''1''" demo "[]" "''m/44''" "''abandon''"]
  by simp

text \<open>The claim as stated fails: the message does not name the supported schemes.\<close>

theorem unsupported_scheme_error_names_no_supported_scheme:
  "snd (generate demo (Some (Unlisted ''1'')) []) = Inl (Error ''Unsupported signature scheme 1'') \<and>
   \<not> reports_supported_schemes (Error ''Unsupported signature scheme 1'')"
  by (simp add: generate_def reports_supported_schemes_def)

section \<open>Round trip of the serialization\<close>

text \<open>
  C1. For every value of a supported type (fixed-width integers, lengths and tags, byte
  vectors, fixed-size byte arrays, sequences, optionals, and structures of these in their
  declared field order), decoding the serialization gives the value back: the top-level decode
  returns it, and a nested decode returns it and leaves exactly the bytes that follow. This
  holds whatever the largest representable length is and whether or not non-canonical ULEB128
  is rejected.
\<close>

theorem bcs_round_trip:
  assumes "has_type cfg t v"
  shows "decode cfg t (serialize v) = Some v \<and>
         (\<forall>rest. deserialize cfg t (serialize v @ rest) = Some (v, rest))"
proof -
  have r: "\<forall>rest. deserialize cfg t (serialize v @ rest) = Some (v, rest)"
    using round_trip_all(1) [of cfg t v] assms by blast
  then have "deserialize cfg t (serialize v) = Some (v, [])"
    using r [rule_format, of "[]"] by simp
  then show ?thesis using r by (simp add: decode_def)
qed

text \<open>The boundary values: 0, the largest u8, u16, u32, u64, u128 and u256, the empty byte
  vector, the empty sequence and the absent optional, as fields of one structure.\<close>

theorem bcs_round_trip_witness:
  "has_type bcs_u32_limits boundary_type boundary_value \<and>
   decode bcs_u32_limits boundary_type (serialize boundary_value) = Some boundary_value"
proof -
  have h: "has_type bcs_u32_limits boundary_type boundary_value"
    by (simp add: boundary_type_def boundary_value_def bcs_u32_limits_def)
  show ?thesis using h bcs_round_trip [OF h] by blast
qed

end
